theory Spec2Isabelle
  imports Main "HOL-Library.Multiset"
begin

section \<open>KWIC-SHOO.cpp: a key-word-in-context index\<close>

subsection \<open>Characters and the character classes of the "C" locale\<close>

text \<open>
  A \<open>std::string\<close> is a list of bytes. Passing a \<open>char\<close> to \<open>tolower\<close>, \<open>islower\<close> or
  \<open>isupper\<close> promotes it to \<open>int\<close>; whether a byte above 127 becomes negative depends on
  the platform, so the promotion takes the signedness of plain \<open>char\<close> as its first
  argument (\<open>True\<close> on x86, \<open>False\<close> on ARM Linux). The program never calls
  \<open>setlocale\<close>, so the classification is that of the "C" locale: only the ASCII letters
  have a case. The tables of the C library (glibc) reach from \<open>-128\<close> to \<open>255\<close>: the
  entry of a negative value other than \<open>EOF = -1\<close> is the entry of the byte it was
  promoted from, so \<open>tolower\<close> returns \<open>c + 256\<close> for \<open>c\<close> from \<open>-128\<close> to \<open>-2\<close>, and
  every other value that is no upper-case letter is returned as it is. No value outside
  the ASCII letters is lower case or upper case.
\<close>

definition to_int :: "bool \<Rightarrow> char \<Rightarrow> int" where
  "to_int sc c = (if sc \<and> 128 \<le> (of_char c :: int) then of_char c - 256 else of_char c)"

definition isupper :: "int \<Rightarrow> bool" where
  "isupper c = (65 \<le> c \<and> c \<le> 90)"

definition islower :: "int \<Rightarrow> bool" where
  "islower c = (97 \<le> c \<and> c \<le> 122)"

definition tolower :: "int \<Rightarrow> int" where
  "tolower c =
     (if isupper c then c + 32
      else if - 128 \<le> c \<and> c \<le> - 2 then c + 256
      else c)"

text \<open>Stream extraction skips and stops at the whitespace of the "C" locale:
  space, and the control characters tab, newline, vertical tab, form feed, carriage return.\<close>

definition isspace :: "char \<Rightarrow> bool" where
  "isspace c = (of_char c = (32::nat) \<or> (9 \<le> (of_char c :: nat) \<and> (of_char c :: nat) \<le> 13))"

subsection \<open>caseSensitive, toLowerString, isNoiseWord\<close>

text \<open>The \<open>for\<close> loop of \<open>caseSensitive\<close>, entered at index \<open>i\<close>.\<close>

function cs_loop :: "bool \<Rightarrow> nat \<Rightarrow> string \<Rightarrow> string \<Rightarrow> bool" where
  "cs_loop sc i a b =
     (if i < min (length a) (length b) then
        (if tolower (to_int sc (a ! i)) \<noteq> tolower (to_int sc (b ! i))
         then tolower (to_int sc (a ! i)) < tolower (to_int sc (b ! i))
         else if a ! i \<noteq> b ! i
         then islower (to_int sc (a ! i)) \<and> isupper (to_int sc (b ! i))
         else cs_loop sc (Suc i) a b)
      else length a < length b)"
  by pat_completeness auto
termination
  by (relation "measure (\<lambda>(sc, i, a, b). min (length a) (length b) - i)") auto

definition caseSensitive :: "bool \<Rightarrow> string \<Rightarrow> string \<Rightarrow> bool" where
  "caseSensitive sc a b = cs_loop sc 0 a b"

text \<open>\<open>result += tolower(c)\<close> converts the \<open>int\<close> back to a \<open>char\<close> (its low eight bits).\<close>

definition toLowerString :: "bool \<Rightarrow> string \<Rightarrow> string" where
  "toLowerString sc str = foldl (\<lambda>result c. result @ [char_of (tolower (to_int sc c))]) [] str"

definition isNoiseWord :: "bool \<Rightarrow> string \<Rightarrow> string list \<Rightarrow> bool" where
  "isNoiseWord sc word nws = (toLowerString sc word \<in> set nws)"

subsection \<open>The library's sort\<close>

text \<open>
  \<open>std::sort(first, last, comp)\<close> is the standard library's: it leaves the range a
  permutation of what it held, ordered so that no element is \<open>comp\<close>-less than one before
  it. \<open>sort_contract\<close> is that postcondition. \<open>std_sort\<close> is an insertion sort that
  meets it; under \<open>caseSensitive\<close> the postcondition has exactly one solution
  (lemma \<open>sort_contract_unique\<close> below), so every implementation of the library
  returns what \<open>std_sort\<close> returns.
\<close>

definition sort_contract :: "('a \<Rightarrow> 'a \<Rightarrow> bool) \<Rightarrow> 'a list \<Rightarrow> 'a list \<Rightarrow> bool" where
  "sort_contract cmp xs ys = (mset ys = mset xs \<and> sorted_wrt (\<lambda>x y. \<not> cmp y x) ys)"

fun sort_insert :: "('a \<Rightarrow> 'a \<Rightarrow> bool) \<Rightarrow> 'a \<Rightarrow> 'a list \<Rightarrow> 'a list" where
  "sort_insert cmp x [] = [x]"
| "sort_insert cmp x (y # ys) =
     (if cmp y x then y # sort_insert cmp x ys else x # y # ys)"

fun std_sort :: "('a \<Rightarrow> 'a \<Rightarrow> bool) \<Rightarrow> 'a list \<Rightarrow> 'a list" where
  "std_sort cmp [] = []"
| "std_sort cmp (x # xs) = sort_insert cmp x (std_sort cmp xs)"

subsection \<open>Input streams\<close>

text \<open>
  A file that opens is either readable, with its bytes, or one whose every read fails
  (a directory, a device error). An \<open>ifstream\<close> on a path that does not open tests false;
  the file system maps such a path to \<open>None\<close>. The program tells the end of a stream
  from a failed read nowhere: both end the \<open>while (getline(...))\<close> loop.
\<close>

datatype infile = Readable string | Unreadable

type_synonym filesystem = "string \<Rightarrow> infile option"

fun stream_bytes :: "infile \<Rightarrow> string" where
  "stream_bytes (Readable bytes) = bytes"
| "stream_bytes Unreadable = []"

text \<open>\<open>getline(stream, line)\<close> on the bytes left in the stream: fails when none is
  left, otherwise takes the bytes up to the next newline and drops that newline.\<close>

fun getline :: "string \<Rightarrow> (string \<times> string) option" where
  "getline [] = None"
| "getline (c # cs) =
     Some (takeWhile (\<lambda>x. x \<noteq> CHR 0x0A) (c # cs), drop 1 (dropWhile (\<lambda>x. x \<noteq> CHR 0x0A) (c # cs)))"

text \<open>\<open>ss >> word\<close>: skips whitespace, fails when nothing is left, otherwise takes the
  bytes up to the next whitespace.\<close>

definition extract_word :: "string \<Rightarrow> (string \<times> string) option" where
  "extract_word ss =
     (if dropWhile isspace ss = [] then None
      else Some (takeWhile (\<lambda>c. \<not> isspace c) (dropWhile isspace ss),
                 dropWhile (\<lambda>c. \<not> isspace c) (dropWhile isspace ss)))"

text \<open>\<open>while (ss >> word) words.push_back(word)\<close>\<close>

function read_words :: "string \<Rightarrow> string list \<Rightarrow> string list" where
  "read_words ss words =
     (case extract_word ss of
        None \<Rightarrow> words
      | Some (word, rest) \<Rightarrow> read_words rest (words @ [word]))"
  by pat_completeness auto
termination
proof (relation "measure (\<lambda>(ss, words). length ss)")
  show "wf (measure (\<lambda>(ss, words). length ss))"
    by simp
next
  fix ss :: string and words :: "string list" and x2 word rest
  assume e: "extract_word ss = Some x2" and x: "(word, rest) = x2"
  have ne: "dropWhile isspace ss \<noteq> []"
    using e by (auto simp: extract_word_def split: if_splits)
  have r: "rest = dropWhile (\<lambda>c. \<not> isspace c) (dropWhile isspace ss)"
    using e x by (auto simp: extract_word_def split: if_splits)
  have "isspace (hd (dropWhile isspace ss)) = False"
    using ne hd_dropWhile [of isspace ss] by simp
  then have "length rest < length (dropWhile isspace ss)"
    using ne unfolding r by (cases "dropWhile isspace ss") (auto simp: less_Suc_eq_le length_dropWhile_le)
  also have "\<dots> \<le> length ss"
    by (rule length_dropWhile_le)
  finally show "((rest, words @ [word]), (ss, words)) \<in> measure (\<lambda>(ss, words). length ss)"
    by simp
qed

subsection \<open>The shared storage\<close>

text \<open>
  The repositories hold \<open>shared_ptr\<close>s; two of them may point at one vector. The
  store maps an address to the \<open>vector<string>\<close> or the \<open>vector<vector<string>>\<close>
  allocated there by \<open>make_shared\<close>, and carries the two output streams.
\<close>

type_synonym addr = nat

record state =
  vec :: "addr \<Rightarrow> string list"
  vec2d :: "addr \<Rightarrow> string list list"
  brk :: addr
  cout :: string
  cerr :: string

record LineRepo =
  lines :: addr
  lines2d :: addr
  noiseWords :: addr

record ShiftRepo =
  shifts :: addr

record SortedShiftRepo =
  sortedShifts :: addr

definition make_shared_vec :: "state \<Rightarrow> addr \<times> state" where
  "make_shared_vec s = (brk s, s\<lparr>vec := (vec s)(brk s := []), brk := Suc (brk s)\<rparr>)"

definition make_shared_vec2d :: "state \<Rightarrow> addr \<times> state" where
  "make_shared_vec2d s = (brk s, s\<lparr>vec2d := (vec2d s)(brk s := []), brk := Suc (brk s)\<rparr>)"

definition LineRepo_new :: "state \<Rightarrow> LineRepo \<times> state" where
  "LineRepo_new s =
     (case make_shared_vec s of (a1, s1) \<Rightarrow>
      case make_shared_vec2d s1 of (a2, s2) \<Rightarrow>
      case make_shared_vec s2 of (a3, s3) \<Rightarrow>
        (\<lparr>lines = a1, lines2d = a2, noiseWords = a3\<rparr>, s3))"

definition LineRepo_add2d :: "LineRepo \<Rightarrow> string list \<Rightarrow> state \<Rightarrow> state" where
  "LineRepo_add2d ln vect s =
     s\<lparr>vec2d := (vec2d s)(lines2d ln := vec2d s (lines2d ln) @ [vect])\<rparr>"

definition push_noiseWord :: "LineRepo \<Rightarrow> string \<Rightarrow> state \<Rightarrow> state" where
  "push_noiseWord ln w s =
     s\<lparr>vec := (vec s)(noiseWords ln := vec s (noiseWords ln) @ [w])\<rparr>"

definition ShiftRepo_new :: "state \<Rightarrow> ShiftRepo \<times> state" where
  "ShiftRepo_new s = (case make_shared_vec s of (a, s1) \<Rightarrow> (\<lparr>shifts = a\<rparr>, s1))"

definition getShifts :: "ShiftRepo \<Rightarrow> addr" where
  "getShifts sh = shifts sh"

definition ShiftRepo_add :: "ShiftRepo \<Rightarrow> string \<Rightarrow> state \<Rightarrow> state" where
  "ShiftRepo_add sh str s = s\<lparr>vec := (vec s)(shifts sh := vec s (shifts sh) @ [str])\<rparr>"

definition SortedShiftRepo_new :: "state \<Rightarrow> SortedShiftRepo \<times> state" where
  "SortedShiftRepo_new s = (case make_shared_vec s of (a, s1) \<Rightarrow> (\<lparr>sortedShifts = a\<rparr>, s1))"

definition getSortedShifts :: "SortedShiftRepo \<Rightarrow> addr" where
  "getSortedShifts ss = sortedShifts ss"

text \<open>\<open>copy\<close> assigns the pointer: afterwards the repository shares the vector.\<close>

definition SortedShiftRepo_copy :: "SortedShiftRepo \<Rightarrow> addr \<Rightarrow> SortedShiftRepo" where
  "SortedShiftRepo_copy ss sharedVect = ss\<lparr>sortedShifts := sharedVect\<rparr>"

subsection \<open>Outcomes\<close>

text \<open>
  A call either returns, or ends the process through \<open>exit\<close>, or reads a vector out of
  range, which the language leaves undefined.
\<close>

datatype 'a result = Returned 'a state | Exited int state | Undefined

subsection \<open>InputFilter\<close>

text \<open>\<open>while (ss >> noiseWord) lines.noiseWords->push_back(toLowerString(noiseWord))\<close>\<close>

function noise_words_loop :: "bool \<Rightarrow> LineRepo \<Rightarrow> string \<Rightarrow> state \<Rightarrow> state" where
  "noise_words_loop sc ln ss s =
     (case extract_word ss of
        None \<Rightarrow> s
      | Some (noiseWord, rest) \<Rightarrow>
          noise_words_loop sc ln rest (push_noiseWord ln (toLowerString sc noiseWord) s))"
  by pat_completeness auto
termination
proof (relation "measure (\<lambda>(sc, ln, ss, s). length ss)")
  show "wf (measure (\<lambda>(sc, ln, ss, s). length ss))"
    by simp
next
  fix sc :: bool and ln :: LineRepo and ss :: string and s :: state and x2 noiseWord rest
  assume e: "extract_word ss = Some x2" and x: "(noiseWord, rest) = x2"
  have ne: "dropWhile isspace ss \<noteq> []"
    using e by (auto simp: extract_word_def split: if_splits)
  have r: "rest = dropWhile (\<lambda>c. \<not> isspace c) (dropWhile isspace ss)"
    using e x by (auto simp: extract_word_def split: if_splits)
  have "isspace (hd (dropWhile isspace ss)) = False"
    using ne hd_dropWhile [of isspace ss] by simp
  then have "length rest < length (dropWhile isspace ss)"
    using ne unfolding r by (cases "dropWhile isspace ss") (auto simp: less_Suc_eq_le length_dropWhile_le)
  also have "\<dots> \<le> length ss"
    by (rule length_dropWhile_le)
  finally show "((sc, ln, rest, push_noiseWord ln (toLowerString sc noiseWord) s), (sc, ln, ss, s))
      \<in> measure (\<lambda>(sc, ln, ss, s). length ss)"
    by simp
qed

text \<open>\<open>while (getline(nwfstream, nwline))\<close>\<close>

function noise_lines_loop :: "bool \<Rightarrow> LineRepo \<Rightarrow> string \<Rightarrow> state \<Rightarrow> state" where
  "noise_lines_loop sc ln nwfstream s =
     (case getline nwfstream of
        None \<Rightarrow> s
      | Some (nwline, rest) \<Rightarrow> noise_lines_loop sc ln rest (noise_words_loop sc ln nwline s))"
  by pat_completeness auto
termination
proof (relation "measure (\<lambda>(sc, ln, nwfstream, s). length nwfstream)")
  show "wf (measure (\<lambda>(sc, ln, nwfstream, s). length nwfstream))"
    by simp
next
  fix sc :: bool and ln :: LineRepo and nwfstream :: string and s :: state and x2 nwline rest
  assume e: "getline nwfstream = Some x2" and x: "(nwline, rest) = x2"
  have "length (drop 1 (dropWhile (\<lambda>x. x \<noteq> CHR 0x0A) nwfstream)) < length nwfstream"
    if "nwfstream \<noteq> []"
    using that length_dropWhile_le [of "\<lambda>x. x \<noteq> CHR 0x0A" nwfstream]
    by (cases nwfstream) auto
  then have "length rest < length nwfstream"
    using e x by (cases nwfstream) auto
  then show "((sc, ln, rest, noise_words_loop sc ln nwline s), (sc, ln, nwfstream, s))
      \<in> measure (\<lambda>(sc, ln, nwfstream, s). length nwfstream)"
    by simp
qed

text \<open>\<open>while (getline(ifstream, line))\<close>, each line split into a fresh \<open>words\<close> vector.\<close>

function input_lines_loop :: "LineRepo \<Rightarrow> string \<Rightarrow> state \<Rightarrow> state" where
  "input_lines_loop ln ifstream s =
     (case getline ifstream of
        None \<Rightarrow> s
      | Some (line, rest) \<Rightarrow> input_lines_loop ln rest (LineRepo_add2d ln (read_words line []) s))"
  by pat_completeness auto
termination
proof (relation "measure (\<lambda>(ln, ifstream, s). length ifstream)")
  show "wf (measure (\<lambda>(ln, ifstream, s). length ifstream))"
    by simp
next
  fix ln :: LineRepo and ifstream :: string and s :: state and x2 line rest
  assume e: "getline ifstream = Some x2" and x: "(line, rest) = x2"
  have "length (drop 1 (dropWhile (\<lambda>x. x \<noteq> CHR 0x0A) ifstream)) < length ifstream"
    if "ifstream \<noteq> []"
    using that length_dropWhile_le [of "\<lambda>x. x \<noteq> CHR 0x0A" ifstream]
    by (cases ifstream) auto
  then have "length rest < length ifstream"
    using e x by (cases ifstream) auto
  then show "((ln, rest, LineRepo_add2d ln (read_words line []) s), (ln, ifstream, s))
      \<in> measure (\<lambda>(ln, ifstream, s). length ifstream)"
    by simp
qed

definition write_cerr :: "string \<Rightarrow> state \<Rightarrow> state" where
  "write_cerr str s = s\<lparr>cerr := cerr s @ str\<rparr>"

definition write_cout :: "string \<Rightarrow> state \<Rightarrow> state" where
  "write_cout str s = s\<lparr>cout := cout s @ str\<rparr>"

definition endl :: string where
  "endl = [CHR 0x0A]"

definition InputFilter_process ::
  "bool \<Rightarrow> filesystem \<Rightarrow> string \<Rightarrow> string \<Rightarrow> LineRepo \<Rightarrow> state \<Rightarrow> unit result" where
  "InputFilter_process sc fs inputFile noiseWordFile ln s =
     (case fs noiseWordFile of
        None \<Rightarrow> Exited 1 (write_cerr (''Error opening noise words file'' @ endl) s)
      | Some nwf \<Rightarrow>
          (case fs inputFile of
             None \<Rightarrow>
               Exited 1 (write_cerr (''Error opening input file'' @ endl)
                 (noise_lines_loop sc ln (stream_bytes nwf) s))
           | Some inpf \<Rightarrow>
               Returned ()
                 (input_lines_loop ln (stream_bytes inpf)
                    (noise_lines_loop sc ln (stream_bytes nwf) s))))"

subsection \<open>CircularShiftFilter\<close>

text \<open>\<open>for (auto &w : vect) temp += w + " "\<close>\<close>

definition join_words :: "string list \<Rightarrow> string" where
  "join_words vect = foldl (\<lambda>temp w. temp @ (w @ '' '')) [] vect"

text \<open>\<open>rotate(vect.begin(), vect.begin() + 1, vect.end())\<close> on the \<open>j\<close>-th line of the
  store, in place.\<close>

definition rotate_line :: "LineRepo \<Rightarrow> nat \<Rightarrow> state \<Rightarrow> state" where
  "rotate_line ln j s =
     s\<lparr>vec2d := (vec2d s)(lines2d ln :=
          (vec2d s (lines2d ln))[j := rotate1 (vec2d s (lines2d ln) ! j)])\<rparr>"

text \<open>The inner loop on the \<open>j\<close>-th line, entered at \<open>i\<close>; \<open>n\<close> is \<open>size\<close>. Reading
  \<open>vect[0]\<close> of an empty vector is undefined.\<close>

function shift_loop ::
  "bool \<Rightarrow> nat \<Rightarrow> nat \<Rightarrow> LineRepo \<Rightarrow> ShiftRepo \<Rightarrow> nat \<Rightarrow> state \<Rightarrow> state option" where
  "shift_loop sc i n ln sh j s =
     (if i < n then
        (case vec2d s (lines2d ln) ! j of
           [] \<Rightarrow> None
         | w # ws \<Rightarrow>
             shift_loop sc (Suc i) n ln sh j
               (rotate_line ln j
                  (if \<not> isNoiseWord sc w (vec s (noiseWords ln))
                   then ShiftRepo_add sh (join_words (w # ws)) s
                   else s)))
      else Some s)"
  by pat_completeness auto
termination
  by (relation "measure (\<lambda>(sc, i, n, ln, sh, j, s). n - i)") auto

text \<open>The outer loop over the lines of \<open>*lines.getLines2d()\<close>, the vector at
  \<open>lines2d ln\<close>, entered at line \<open>j\<close> of \<open>m\<close>. The reference \<open>vect\<close> is the \<open>j\<close>-th
  element of that vector.\<close>

function lines_loop ::
  "bool \<Rightarrow> nat \<Rightarrow> nat \<Rightarrow> LineRepo \<Rightarrow> ShiftRepo \<Rightarrow> state \<Rightarrow> state option" where
  "lines_loop sc j m ln sh s =
     (if j < m then
        (case shift_loop sc 0 (length (vec2d s (lines2d ln) ! j)) ln sh j s of
           None \<Rightarrow> None
         | Some s' \<Rightarrow> lines_loop sc (Suc j) m ln sh s')
      else Some s)"
  by pat_completeness auto
termination
  by (relation "measure (\<lambda>(sc, j, m, ln, sh, s). m - j)") auto

definition CircularShiftFilter_process ::
  "bool \<Rightarrow> LineRepo \<Rightarrow> ShiftRepo \<Rightarrow> state \<Rightarrow> state option" where
  "CircularShiftFilter_process sc ln sh s =
     lines_loop sc 0 (length (vec2d s (lines2d ln))) ln sh s"

subsection \<open>AlphabetizerFilter, OutputFilter\<close>

definition AlphabetizerFilter_process ::
  "bool \<Rightarrow> ShiftRepo \<Rightarrow> SortedShiftRepo \<Rightarrow> state \<Rightarrow> SortedShiftRepo \<times> state" where
  "AlphabetizerFilter_process sc sh ss s =
     (case SortedShiftRepo_copy ss (getShifts sh) of ss' \<Rightarrow>
        (ss', s\<lparr>vec := (vec s)(getSortedShifts ss' :=
                 std_sort (caseSensitive sc) (vec s (getSortedShifts ss')))\<rparr>))"

definition OutputFilter_process :: "SortedShiftRepo \<Rightarrow> state \<Rightarrow> state" where
  "OutputFilter_process ss s =
     foldl (\<lambda>s' line. write_cout ([CHR 0x0A] @ line @ endl) s') s (vec s (getSortedShifts ss))"

subsection \<open>Pipeline and main\<close>

definition Pipeline_process ::
  "bool \<Rightarrow> filesystem \<Rightarrow> string \<Rightarrow> string \<Rightarrow> LineRepo \<Rightarrow> ShiftRepo \<Rightarrow> SortedShiftRepo \<Rightarrow> state
     \<Rightarrow> SortedShiftRepo result" where
  "Pipeline_process sc fs inputFile noiseWord ln sh ss s =
     (case InputFilter_process sc fs inputFile noiseWord ln s of
        Exited code s1 \<Rightarrow> Exited code s1
      | Undefined \<Rightarrow> Undefined
      | Returned u s1 \<Rightarrow>
          (case CircularShiftFilter_process sc ln sh s1 of
             None \<Rightarrow> Undefined
           | Some s2 \<Rightarrow>
               (case AlphabetizerFilter_process sc sh ss s2 of (ss', s3) \<Rightarrow>
                  Returned ss' (OutputFilter_process ss' s3))))"

text \<open>\<open>cout << duration.count()\<close> prints a signed integer in decimal.\<close>

function digits :: "nat \<Rightarrow> string" where
  "digits k = (if k < 10 then [char_of (48 + k)] else digits (k div 10) @ [char_of (48 + k mod 10)])"
  by pat_completeness auto
termination
  by (relation "measure id") auto

definition show_int :: "int \<Rightarrow> string" where
  "show_int k = (if k < 0 then CHR ''-'' # digits (nat (- k)) else digits (nat k))"

definition usage :: string where
  "usage = ''Please input arguments in the correct format:'' @ [CHR 0x0A, CHR 0x0A]
     @ ''./program_name input_filename noise_words_filename''"

definition init_state :: state where
  "init_state = \<lparr>vec = (\<lambda>a. []), vec2d = (\<lambda>a. []), brk = 0, cout = [], cerr = []\<rparr>"

text \<open>
  \<open>main\<close>, started with empty streams and an empty store. \<open>elapsed\<close> is what the two
  readings of the steady clock differ by, in microseconds.
\<close>

definition main :: "bool \<Rightarrow> filesystem \<Rightarrow> int \<Rightarrow> int \<Rightarrow> string list \<Rightarrow> int result" where
  "main sc fs elapsed argc argv =
     (if argc < 3 then
        Returned 1 (write_cerr (''Error: Not enough arguments in command line.'' @ [CHR 0x0A]
                      @ usage @ endl) init_state)
      else if argc > 3 then
        Returned 1 (write_cerr (''Error: Too many arguments in command line.'' @ [CHR 0x0A]
                      @ usage @ endl) init_state)
      else
        (case LineRepo_new init_state of (ln, s1) \<Rightarrow>
         case ShiftRepo_new s1 of (sh, s2) \<Rightarrow>
         case SortedShiftRepo_new s2 of (ss, s3) \<Rightarrow>
           (case Pipeline_process sc fs (argv ! 1) (argv ! 2) ln sh ss s3 of
              Exited code s4 \<Rightarrow> Exited code s4
            | Undefined \<Rightarrow> Undefined
            | Returned ss' s4 \<Rightarrow>
                Returned 0 (write_cout ([CHR 0x0A, CHR 0x0A] @ show_int elapsed
                              @ '' microseconds to complete.'' @ endl) s4))))"

subsection \<open>What a run leaves behind\<close>

text \<open>The exit status of the process, and what it has written to the two streams.\<close>

definition exit_status :: "int result \<Rightarrow> int option" where
  "exit_status r = (case r of Returned code s \<Rightarrow> Some code | Exited code s \<Rightarrow> Some code | Undefined \<Rightarrow> None)"

definition stdout_of :: "'a result \<Rightarrow> string" where
  "stdout_of r = (case r of Returned x s \<Rightarrow> cout s | Exited code s \<Rightarrow> cout s | Undefined \<Rightarrow> [])"

definition stderr_of :: "'a result \<Rightarrow> string" where
  "stderr_of r = (case r of Returned x s \<Rightarrow> cerr s | Exited code s \<Rightarrow> cerr s | Undefined \<Rightarrow> [])"

subsection \<open>What the loops compute\<close>

text \<open>
  The definitions of this subsection are not code of the program: they state, in closed
  form, what its loops are proved to compute below.

  \<open>char_less\<close> is the decision the body of the comparator's loop takes on a pair of
  characters, and \<open>lex_less\<close> applies it at the first position where two strings differ.
  \<open>rank\<close> places the characters on a line: the folded value first, lower case before
  upper case within it.
\<close>

definition char_less :: "bool \<Rightarrow> char \<Rightarrow> char \<Rightarrow> bool" where
  "char_less sc ca cb =
     (if tolower (to_int sc ca) \<noteq> tolower (to_int sc cb)
      then tolower (to_int sc ca) < tolower (to_int sc cb)
      else islower (to_int sc ca) \<and> isupper (to_int sc cb))"

fun lex_less :: "bool \<Rightarrow> string \<Rightarrow> string \<Rightarrow> bool" where
  "lex_less sc [] [] = False"
| "lex_less sc [] (cb # b) = True"
| "lex_less sc (ca # a) [] = False"
| "lex_less sc (ca # a) (cb # b) = (if ca = cb then lex_less sc a b else char_less sc ca cb)"

definition rank :: "bool \<Rightarrow> char \<Rightarrow> int" where
  "rank sc c = 2 * tolower (to_int sc c) + (if isupper (to_int sc c) then 1 else 0)"

text \<open>The lines a \<open>while (getline(...))\<close> loop reads from a stream, and the tokens the
  two nested loops of \<open>InputFilter::process\<close> extract from it.\<close>

function getlines :: "string \<Rightarrow> string list" where
  "getlines stream =
     (case getline stream of
        None \<Rightarrow> []
      | Some (line, rest) \<Rightarrow> line # getlines rest)"
  by pat_completeness auto
termination
proof (relation "measure length")
  show "wf (measure length)"
    by simp
next
  fix stream :: string and x2 line rest
  assume e: "getline stream = Some x2" and x: "(line, rest) = x2"
  have "length (drop 1 (dropWhile (\<lambda>x. x \<noteq> CHR 0x0A) stream)) < length stream"
    if "stream \<noteq> []"
    using that length_dropWhile_le [of "\<lambda>x. x \<noteq> CHR 0x0A" stream]
    by (cases stream) auto
  then have "length rest < length stream"
    using e x by (cases stream) auto
  then show "(rest, stream) \<in> measure length"
    by simp
qed

definition tokens :: "string \<Rightarrow> string list" where
  "tokens stream = concat (map (\<lambda>line. read_words line []) (getlines stream))"

text \<open>
  The rotations of a line as the specification describes them: the offsets \<open>0\<close> to
  \<open>n - 1\<close> in increasing order, those kept whose word \<open>vect ! i\<close> is no noise word, each
  rendered as the words of the line rotated left by \<open>i\<close>, every word followed by a space.
\<close>

definition rotation_text :: "string list \<Rightarrow> string" where
  "rotation_text ws = concat (map (\<lambda>w. w @ '' '') ws)"

definition rotations :: "bool \<Rightarrow> string list \<Rightarrow> string list \<Rightarrow> string list" where
  "rotations sc nws vect =
     map (\<lambda>i. rotation_text (rotate i vect))
       (filter (\<lambda>i. \<not> isNoiseWord sc (vect ! i) nws) [0..<length vect])"

text \<open>
  What \<open>k\<close> iterations of the inner loop of \<open>CircularShiftFilter::process\<close> emit when
  they start with the line \<open>vect\<close>, and the store after a list of strings has been added to
  the rotation repository.
\<close>

definition emitted :: "bool \<Rightarrow> string list \<Rightarrow> string list \<Rightarrow> nat \<Rightarrow> string list" where
  "emitted sc nws vect k =
     map (\<lambda>i. rotation_text (rotate i vect))
       (filter (\<lambda>i. \<not> isNoiseWord sc (hd (rotate i vect)) nws) [0..<k])"

definition add_shifts :: "ShiftRepo \<Rightarrow> string list \<Rightarrow> state \<Rightarrow> state" where
  "add_shifts sh strs s = s\<lparr>vec := (vec s)(shifts sh := vec s (shifts sh) @ strs)\<rparr>"

text \<open>The store after a list of strings has been added to the noise words, and after a
  list of lines has been added to the line store.\<close>

definition add_noise :: "LineRepo \<Rightarrow> string list \<Rightarrow> state \<Rightarrow> state" where
  "add_noise ln ws s = s\<lparr>vec := (vec s)(noiseWords ln := vec s (noiseWords ln) @ ws)\<rparr>"

definition add_lines :: "LineRepo \<Rightarrow> string list list \<Rightarrow> state \<Rightarrow> state" where
  "add_lines ln vects s = s\<lparr>vec2d := (vec2d s)(lines2d ln := vec2d s (lines2d ln) @ vects)\<rparr>"

subsection \<open>An example store\<close>

text \<open>
  A file system with the document \<open>The quick fox\<close>, the noise words \<open>the\<close>, \<open>A\<close> and
  \<open>Of\<close> on two lines, and a directory; the repositories where \<open>main\<close> allocates them;
  and the store as \<open>InputFilter::process\<close> leaves it for that document and those noise
  words (lemma \<open>fox_state_input\<close> below).
\<close>

definition fox_lines :: LineRepo where
  "fox_lines = \<lparr>lines = 0, lines2d = 1, noiseWords = 2\<rparr>"

definition fox_shifts :: ShiftRepo where
  "fox_shifts = \<lparr>shifts = 3\<rparr>"

definition fox_sorted :: SortedShiftRepo where
  "fox_sorted = \<lparr>sortedShifts = 4\<rparr>"

definition fox_state :: state where
  "fox_state = init_state
     \<lparr>vec := (vec init_state)(2 := [''the'', ''a'', ''of'']),
      vec2d := (vec2d init_state)(1 := [[''The'', ''quick'', ''fox'']]),
      brk := 5\<rparr>"

text \<open>The same store with a document of three lines, the second of them empty.\<close>

definition doc_state :: state where
  "doc_state = fox_state
     \<lparr>vec2d := (vec2d fox_state)(1 := [[''The'', ''quick'', ''fox''], [], [''of'', ''Fox'']])\<rparr>"

definition fox_fs :: filesystem where
  "fox_fs = [''doc.txt'' \<mapsto> Readable ''The quick fox\<newline>'',
             ''noise.txt'' \<mapsto> Readable ''the A\<newline>Of'',
             ''/tmp'' \<mapsto> Unreadable]"

section \<open>The comparator is a strict linear order\<close>

text \<open>The equations of the loops are unfolded by hand, one iteration at a time.\<close>

declare cs_loop.simps [simp del]
declare shift_loop.simps [simp del]
declare lines_loop.simps [simp del]
declare read_words.simps [simp del]
declare getlines.simps [simp del]
declare noise_words_loop.simps [simp del]
declare noise_lines_loop.simps [simp del]
declare input_lines_loop.simps [simp del]
declare digits.simps [simp del]

lemma to_int_inj: "to_int sc x = to_int sc y \<Longrightarrow> x = y"
proof -
  have b: "(of_char c :: int) < 256 \<and> 0 \<le> (of_char c :: int)" for c
    using of_char_mod_256 [of c, where ?'a = int]
      pos_mod_bound [of 256 "of_char c :: int"] pos_mod_sign [of 256 "of_char c :: int"]
    by simp
  show "to_int sc x = to_int sc y \<Longrightarrow> x = y"
    using b [of x] b [of y] by (auto simp: to_int_def split: if_splits)
qed

lemma to_int_range:
  "(sc \<longrightarrow> - 128 \<le> to_int sc c \<and> to_int sc c < 128)
   \<and> (\<not> sc \<longrightarrow> 0 \<le> to_int sc c \<and> to_int sc c < 256)"
proof -
  have "(of_char c :: int) < 256 \<and> 0 \<le> (of_char c :: int)"
    using of_char_mod_256 [of c, where ?'a = int]
      pos_mod_bound [of 256 "of_char c :: int"] pos_mod_sign [of 256 "of_char c :: int"]
    by simp
  then show ?thesis
    by (auto simp: to_int_def)
qed

lemma tolower_to_int_inj:
  assumes "tolower (to_int sc x) = tolower (to_int sc y)"
    and "isupper (to_int sc x) = isupper (to_int sc y)"
  shows "x = y"
proof -
  have "to_int sc x = to_int sc y"
    using assms to_int_range [of sc x] to_int_range [of sc y]
    by (cases sc) (simp_all add: tolower_def isupper_def split: if_splits)
  then show ?thesis
    by (rule to_int_inj)
qed

lemma tolower_same_fold:
  assumes "tolower (to_int sc x) = tolower (to_int sc y)" and "x \<noteq> y"
  shows "islower (to_int sc x) \<and> isupper (to_int sc y)
    \<or> islower (to_int sc y) \<and> isupper (to_int sc x)"
proof -
  have d: "isupper (to_int sc x) \<noteq> isupper (to_int sc y)"
    using assms tolower_to_int_inj [of sc x y] by blast
  show ?thesis
    using assms(1) d by (auto simp: tolower_def isupper_def islower_def split: if_splits)
qed

lemma rank_inj: "rank sc x = rank sc y \<Longrightarrow> x = y"
proof -
  assume r: "rank sc x = rank sc y"
  have "tolower (to_int sc x) = tolower (to_int sc y)"
    using r by (simp add: rank_def split: if_splits; presburger)
  moreover have "isupper (to_int sc x) = isupper (to_int sc y)"
    using r by (simp add: rank_def split: if_splits; presburger)
  ultimately show "x = y"
    by (rule tolower_to_int_inj)
qed

lemma char_less_rank: "char_less sc x y \<longleftrightarrow> rank sc x < rank sc y"
proof (cases "tolower (to_int sc x) = tolower (to_int sc y)")
  case False
  then show ?thesis
    by (auto simp: char_less_def rank_def)
next
  case True
  show ?thesis
  proof (cases "x = y")
    case same: True
    then show ?thesis
      by (auto simp: char_less_def rank_def isupper_def islower_def)
  next
    case False
    then show ?thesis
      using True tolower_same_fold [OF True False]
      by (auto simp: char_less_def rank_def isupper_def islower_def)
  qed
qed

text \<open>The bytes above 127: on a platform with a signed \<open>char\<close> the byte \<open>0xFF\<close> is
  \<open>EOF\<close> and orders first, the other bytes above 127 order after ASCII; lower-casing a
  string gives the same bytes on every platform.\<close>

lemma tolower_negative: "tolower (- 23) = 233 \<and> tolower (- 1) = - 1 \<and> tolower 65 = 97"
  by (simp add: tolower_def isupper_def)

lemma caseSensitive_high_bytes:
  "caseSensitive True [CHR 0xFF] [CHR 0x80] \<and> \<not> caseSensitive True [CHR 0x80] [CHR 0xFF]
   \<and> caseSensitive True ''z'' [CHR 0x80] \<and> caseSensitive True [CHR 0xFF] ''a''
   \<and> caseSensitive False [CHR 0x80] [CHR 0xFF] \<and> caseSensitive False ''z'' [CHR 0x80]"
  by (simp add: caseSensitive_def cs_loop.simps to_int_def tolower_def isupper_def islower_def)

lemma toLowerString_signedness: "toLowerString sc str = toLowerString sc' str"
proof -
  have c: "char_of (tolower (to_int True c)) = char_of (tolower (to_int False c))" for c
  proof -
    have "(of_char c :: int) < 256 \<and> 0 \<le> (of_char c :: int)"
      using to_int_range [of False c] by (simp add: to_int_def)
    then show ?thesis
      by (auto simp: to_int_def tolower_def isupper_def)
  qed
  have "char_of (tolower (to_int sc c)) = char_of (tolower (to_int sc' c))" for c
    using c [of c] by (cases sc; cases sc') simp_all
  then have "(\<lambda>result c. result @ [char_of (tolower (to_int sc c))])
      = (\<lambda>(result :: string) c. result @ [char_of (tolower (to_int sc' c))])"
    by (simp only: fun_eq_iff) simp
  then show ?thesis
    unfolding toLowerString_def by (rule arg_cong [where f = "\<lambda>g. foldl g [] str"])
qed

lemma lex_less_lexord:
  "lex_less sc a b \<longleftrightarrow> (map (rank sc) a, map (rank sc) b) \<in> lexord {(x, y). x < y}"
proof (induction sc a b rule: lex_less.induct)
  case (4 sc ca a cb b)
  then show ?case
    using rank_inj [of sc ca cb] by (auto simp: char_less_rank)
qed simp_all

lemma cs_loop_lex_less:
  "i \<le> length a \<Longrightarrow> i \<le> length b \<Longrightarrow> cs_loop sc i a b = lex_less sc (drop i a) (drop i b)"
proof (induction sc i a b rule: cs_loop.induct)
  case (1 sc i a b)
  show ?case
  proof (cases "i < min (length a) (length b)")
    case True
    then have da: "drop i a = a ! i # drop (Suc i) a" and db: "drop i b = b ! i # drop (Suc i) b"
      by (simp_all add: Cons_nth_drop_Suc)
    show ?thesis
    proof (cases "a ! i = b ! i")
      case same: True
      then have "cs_loop sc i a b = cs_loop sc (Suc i) a b"
        using True by (subst cs_loop.simps) simp
      also have "\<dots> = lex_less sc (drop (Suc i) a) (drop (Suc i) b)"
        using True same by (intro "1.IH") simp_all
      finally show ?thesis
        using same by (simp add: da db)
    next
      case False
      then have "cs_loop sc i a b = char_less sc (a ! i) (b ! i)"
        using True by (subst cs_loop.simps) (simp add: char_less_def)
      then show ?thesis
        using False by (simp add: da db)
    qed
  next
    case False
    then have c: "cs_loop sc i a b = (length a < length b)"
      by (subst cs_loop.simps) (simp only: if_False)
    from False "1.prems" consider "i = length a" | "i = length b" "length b < length a"
      by linarith
    then show ?thesis
    proof cases
      case 1
      then show ?thesis
        unfolding c by (cases "length a < length b") (simp_all flip: Cons_nth_drop_Suc)
    next
      case 2
      then show ?thesis
        unfolding c by (cases "drop (length b) a") (auto)
    qed
  qed
qed

lemma caseSensitive_lex_less: "caseSensitive sc a b = lex_less sc a b"
  by (simp add: caseSensitive_def cs_loop_lex_less)

lemma caseSensitive_lexord:
  "caseSensitive sc a b \<longleftrightarrow> (map (rank sc) a, map (rank sc) b) \<in> lexord {(x, y). x < y}"
  by (simp add: caseSensitive_lex_less lex_less_lexord)

lemma caseSensitive_irrefl: "\<not> caseSensitive sc a a"
  by (simp add: caseSensitive_lexord lexord_irreflexive)

lemma caseSensitive_trans:
  "caseSensitive sc a b \<Longrightarrow> caseSensitive sc b c \<Longrightarrow> caseSensitive sc a c"
  unfolding caseSensitive_lexord
  by (erule lexord_trans, assumption) (auto simp: trans_def)

lemma caseSensitive_asym: "caseSensitive sc a b \<Longrightarrow> \<not> caseSensitive sc b a"
  using caseSensitive_trans [of sc a b a] caseSensitive_irrefl [of sc a] by blast

lemma caseSensitive_total: "caseSensitive sc a b \<or> a = b \<or> caseSensitive sc b a"
proof -
  have inj: "inj (rank sc)"
    by (auto simp: inj_on_def dest: rank_inj)
  have "(map (rank sc) a, map (rank sc) b) \<in> lexord {(x, y). x < y}
      \<or> map (rank sc) a = map (rank sc) b
      \<or> (map (rank sc) b, map (rank sc) a) \<in> lexord {(x, y). x < y}"
    by (rule lexord_linear) auto
  then show ?thesis
    using inj by (auto simp: caseSensitive_lexord)
qed

lemma caseSensitive_negtrans:
  "\<not> caseSensitive sc b a \<Longrightarrow> \<not> caseSensitive sc c b \<Longrightarrow> \<not> caseSensitive sc c a"
  using caseSensitive_total [of sc a b] caseSensitive_trans [of sc c a b] by blast

lemma cs_loop_skip:
  "i \<le> min (length a) (length b) \<Longrightarrow> \<forall>j<i. a ! j = b ! j \<Longrightarrow> cs_loop sc 0 a b = cs_loop sc i a b"
proof (induction i)
  case 0
  show ?case by simp
next
  case (Suc i)
  then have "cs_loop sc 0 a b = cs_loop sc i a b"
    by simp
  also have "\<dots> = cs_loop sc (Suc i) a b"
    using Suc.prems by (subst cs_loop.simps) simp
  finally show ?case .
qed

section \<open>The sort\<close>

lemma mset_sort_insert: "mset (sort_insert cmp x xs) = add_mset x (mset xs)"
  by (induction xs) simp_all

lemma mset_std_sort: "mset (std_sort cmp xs) = mset xs"
  by (induction xs) (simp_all add: mset_sort_insert)

lemma set_sort_insert: "set (sort_insert cmp x xs) = insert x (set xs)"
  using mset_sort_insert [of cmp x xs, THEN arg_cong, of set_mset] by simp

lemma sorted_sort_insert:
  assumes asym: "\<And>x y. cmp x y \<Longrightarrow> \<not> cmp y x"
    and negtrans: "\<And>x y z. \<not> cmp y x \<Longrightarrow> \<not> cmp z y \<Longrightarrow> \<not> cmp z x"
    and sorted: "sorted_wrt (\<lambda>x y. \<not> cmp y x) xs"
  shows "sorted_wrt (\<lambda>x y. \<not> cmp y x) (sort_insert cmp x xs)"
  using sorted
proof (induction xs)
  case Nil
  show ?case by simp
next
  case (Cons y ys)
  show ?case
  proof (cases "cmp y x")
    case True
    then show ?thesis
      using Cons asym by (auto simp: set_sort_insert)
  next
    case False
    then show ?thesis
      using Cons.prems negtrans by auto
  qed
qed

lemma sorted_std_sort:
  assumes "\<And>x y. cmp x y \<Longrightarrow> \<not> cmp y x"
    and "\<And>x y z. \<not> cmp y x \<Longrightarrow> \<not> cmp z y \<Longrightarrow> \<not> cmp z x"
  shows "sorted_wrt (\<lambda>x y. \<not> cmp y x) (std_sort cmp xs)"
proof (induction xs)
  case Nil
  show ?case by simp
next
  case (Cons x xs)
  have "sorted_wrt (\<lambda>x y. \<not> cmp y x) (sort_insert cmp x (std_sort cmp xs))"
    using assms(1) assms(2) Cons.IH by (rule sorted_sort_insert)
  then show ?case by simp
qed

lemma sorted_wrt_unique:
  assumes antisym: "\<And>x y. \<not> cmp x y \<Longrightarrow> \<not> cmp y x \<Longrightarrow> x = y"
  shows "sorted_wrt (\<lambda>x y. \<not> cmp y x) xs \<Longrightarrow> sorted_wrt (\<lambda>x y. \<not> cmp y x) ys
    \<Longrightarrow> mset xs = mset ys \<Longrightarrow> xs = ys"
proof (induction xs arbitrary: ys)
  case Nil
  then show ?case by simp
next
  case (Cons x xs)
  from Cons.prems(3) obtain y ys' where ys: "ys = y # ys'"
    by (cases ys) auto
  have "x \<in> set ys" "y \<in> set (x # xs)"
    using Cons.prems(3) [THEN arg_cong, of set_mset] by (auto simp: ys)
  have xy: "x = y"
  proof (rule ccontr)
    assume "x \<noteq> y"
    then have "x \<in> set ys'" "y \<in> set xs"
      using \<open>x \<in> set ys\<close> \<open>y \<in> set (x # xs)\<close> by (auto simp: ys)
    then have "\<not> cmp x y" "\<not> cmp y x"
      using Cons.prems(1,2) by (auto simp: ys)
    then have "x = y"
      by (rule antisym)
    then show False
      using \<open>x \<noteq> y\<close> by simp
  qed
  then have "xs = ys'"
    using Cons.prems by (intro Cons.IH) (simp_all add: ys)
  then show ?case
    by (simp add: ys xy)
qed

lemma std_sort_contract: "sort_contract (caseSensitive sc) xs (std_sort (caseSensitive sc) xs)"
proof -
  have "sorted_wrt (\<lambda>x y. \<not> caseSensitive sc y x) (std_sort (caseSensitive sc) xs)"
    by (rule sorted_std_sort) (fact caseSensitive_asym, fact caseSensitive_negtrans)
  then show ?thesis
    by (simp add: sort_contract_def mset_std_sort)
qed

lemma sort_contract_unique:
  "sort_contract (caseSensitive sc) xs ys \<longleftrightarrow> ys = std_sort (caseSensitive sc) xs"
proof
  assume c: "sort_contract (caseSensitive sc) xs ys"
  have "\<not> caseSensitive sc x y \<Longrightarrow> \<not> caseSensitive sc y x \<Longrightarrow> x = y" for x y
    using caseSensitive_total [of sc x y] by blast
  then show "ys = std_sort (caseSensitive sc) xs"
    using c std_sort_contract [of sc xs] unfolding sort_contract_def
    by (intro sorted_wrt_unique [of "caseSensitive sc"]) simp_all
next
  assume "ys = std_sort (caseSensitive sc) xs"
  then show "sort_contract (caseSensitive sc) xs ys"
    by (simp add: std_sort_contract)
qed

lemma std_sort_sorted_id:
  "sorted_wrt (\<lambda>x y. \<not> caseSensitive sc y x) xs \<Longrightarrow> std_sort (caseSensitive sc) xs = xs"
  using sort_contract_unique [of sc xs xs] by (simp add: sort_contract_def)

lemma std_sort_idem:
  "std_sort (caseSensitive sc) (std_sort (caseSensitive sc) xs) = std_sort (caseSensitive sc) xs"
  using std_sort_contract [of sc xs] by (intro std_sort_sorted_id) (simp add: sort_contract_def)

section \<open>The rotation loops in closed form\<close>

lemma foldl_join: "foldl (\<lambda>temp w. temp @ (w @ '' '')) acc vect = acc @ rotation_text vect"
  by (induction vect arbitrary: acc) (simp_all add: rotation_text_def)

lemma join_words_text: "join_words vect = rotation_text vect"
  by (simp add: join_words_def foldl_join)

lemma emitted_0: "emitted sc nws vect 0 = []"
  by (simp add: emitted_def)

lemma emitted_Suc:
  "emitted sc nws vect (Suc k) =
     (if \<not> isNoiseWord sc (hd vect) nws then [rotation_text vect] else [])
       @ emitted sc nws (rotate1 vect) k"
proof -
  have u: "[0..<Suc k] = 0 # map Suc [0..<k]"
    by (simp add: upt_conv_Cons map_Suc_upt del: upt_Suc)
  have r: "rotate (Suc i) vect = rotate i (rotate1 vect)" for i
    by (simp add: rotate1_rotate_swap)
  show ?thesis
    unfolding emitted_def u by (simp add: filter_map comp_def r del: rotate_Suc)
qed

lemma rotations_emitted: "rotations sc nws vect = emitted sc nws vect (length vect)"
proof -
  have "hd (rotate i vect) = vect ! i" if "i < length vect" for i
    using that by (cases "vect = []") (simp_all add: hd_rotate_conv_nth)
  then have "filter (\<lambda>i. \<not> isNoiseWord sc (vect ! i) nws) [0..<length vect]
      = filter (\<lambda>i. \<not> isNoiseWord sc (hd (rotate i vect)) nws) [0..<length vect]"
    by (intro filter_cong) simp_all
  then show ?thesis
    by (simp add: rotations_def emitted_def)
qed

lemma shift_loop_closed:
  assumes "j < length (vec2d s (lines2d ln))" and "noiseWords ln \<noteq> shifts sh"
    and "vec2d s (lines2d ln) ! j \<noteq> [] \<or> k = 0"
  shows "shift_loop sc i (i + k) ln sh j s =
     Some (add_shifts sh (emitted sc (vec s (noiseWords ln)) (vec2d s (lines2d ln) ! j) k)
       (s\<lparr>vec2d := (vec2d s)(lines2d ln :=
          (vec2d s (lines2d ln))[j := rotate k (vec2d s (lines2d ln) ! j)])\<rparr>))"
  using assms
proof (induction k arbitrary: i s)
  case 0
  then show ?case
    by (subst shift_loop.simps) (simp add: emitted_0 add_shifts_def)
next
  case (Suc k)
  define v where "v = vec2d s (lines2d ln) ! j"
  define nws where "nws = vec s (noiseWords ln)"
  from Suc.prems obtain w ws where v: "v = w # ws"
    unfolding v_def by (cases "vec2d s (lines2d ln) ! j") auto
  define s1 where "s1 = rotate_line ln j
     (if \<not> isNoiseWord sc w nws then ShiftRepo_add sh (join_words (w # ws)) s else s)"
  have step: "shift_loop sc i (i + Suc k) ln sh j s = shift_loop sc (Suc i) (Suc i + k) ln sh j s1"
    using v by (subst shift_loop.simps) (simp add: v_def [symmetric] s1_def nws_def)
  have l1: "vec2d s1 (lines2d ln) = (vec2d s (lines2d ln))[j := rotate1 v]"
    by (simp add: s1_def rotate_line_def ShiftRepo_add_def v_def)
  have n1: "vec s1 (noiseWords ln) = nws"
    using Suc.prems(2) by (simp add: s1_def rotate_line_def ShiftRepo_add_def nws_def)
  have j1: "j < length (vec2d s1 (lines2d ln))"
    using Suc.prems(1) by (simp add: l1)
  have v1: "vec2d s1 (lines2d ln) ! j = rotate1 v"
    using Suc.prems(1) by (simp add: l1)
  have ne1: "vec2d s1 (lines2d ln) ! j \<noteq> [] \<or> k = 0"
    by (simp add: v1 v)
  have eq: "add_shifts sh (emitted sc nws (rotate1 v) k)
       (s1\<lparr>vec2d := (vec2d s1)(lines2d ln := (vec2d s1 (lines2d ln))[j := rotate k (rotate1 v)])\<rparr>)
     = add_shifts sh (emitted sc nws v (Suc k))
       (s\<lparr>vec2d := (vec2d s)(lines2d ln := (vec2d s (lines2d ln))[j := rotate (Suc k) v])\<rparr>)"
    by (simp add: emitted_Suc add_shifts_def s1_def rotate_line_def ShiftRepo_add_def
        join_words_text v rotate1_rotate_swap v_def [symmetric])
  note step
  also have "shift_loop sc (Suc i) (Suc i + k) ln sh j s1 =
     Some (add_shifts sh (emitted sc nws (rotate1 v) k)
       (s1\<lparr>vec2d := (vec2d s1)(lines2d ln := (vec2d s1 (lines2d ln))[j := rotate k (rotate1 v)])\<rparr>))"
    using Suc.IH [OF j1 Suc.prems(2) ne1, of "Suc i"] unfolding n1 v1 .
  finally have "shift_loop sc i (i + Suc k) ln sh j s =
     Some (add_shifts sh (emitted sc nws v (Suc k))
       (s\<lparr>vec2d := (vec2d s)(lines2d ln := (vec2d s (lines2d ln))[j := rotate (Suc k) v])\<rparr>))"
    by (simp only: eq)
  then show ?case
    unfolding v_def nws_def .
qed

lemma length_rotations:
  "length (rotations sc nws vect)
     = length vect - length (filter (\<lambda>i. isNoiseWord sc (vect ! i) nws) [0..<length vect])"
  using sum_length_filter_compl [of "\<lambda>i. isNoiseWord sc (vect ! i) nws" "[0..<length vect]"]
  by (simp add: rotations_def)

lemma shift_line:
  assumes "j < length (vec2d s (lines2d ln))" and "noiseWords ln \<noteq> shifts sh"
  shows "shift_loop sc 0 (length (vec2d s (lines2d ln) ! j)) ln sh j s =
     Some (add_shifts sh (rotations sc (vec s (noiseWords ln)) (vec2d s (lines2d ln) ! j)) s)"
proof -
  define v where "v = vec2d s (lines2d ln) ! j"
  have "v \<noteq> [] \<or> length v = 0"
    by simp
  then have "shift_loop sc 0 (0 + length v) ln sh j s =
     Some (add_shifts sh (emitted sc (vec s (noiseWords ln)) v (length v))
       (s\<lparr>vec2d := (vec2d s)(lines2d ln := (vec2d s (lines2d ln))[j := rotate (length v) v])\<rparr>))"
    unfolding v_def by (intro shift_loop_closed assms)
  moreover have "s\<lparr>vec2d := (vec2d s)(lines2d ln := (vec2d s (lines2d ln))[j := rotate (length v) v])\<rparr> = s"
    by (simp add: rotate_id v_def)
  ultimately show ?thesis
    by (simp add: rotations_emitted v_def)
qed

lemma add_shifts_add_shifts:
  "add_shifts sh ys (add_shifts sh xs s) = add_shifts sh (xs @ ys) s"
  by (simp add: add_shifts_def)

lemma add_shifts_Nil: "add_shifts sh [] s = s"
  by (simp add: add_shifts_def)

lemma lines_loop_closed:
  assumes "noiseWords ln \<noteq> shifts sh" and "j + k \<le> length (vec2d s (lines2d ln))"
  shows "lines_loop sc j (j + k) ln sh s =
     Some (add_shifts sh
       (concat (map (rotations sc (vec s (noiseWords ln))) (take k (drop j (vec2d s (lines2d ln)))))) s)"
  using assms
proof (induction k arbitrary: j s)
  case 0
  show ?case
    by (subst lines_loop.simps) (simp add: add_shifts_Nil)
next
  case (Suc k)
  define L where "L = vec2d s (lines2d ln)"
  define nws where "nws = vec s (noiseWords ln)"
  define s1 where "s1 = add_shifts sh (rotations sc nws (L ! j)) s"
  have j: "j < length L"
    using Suc.prems(2) by (simp add: L_def)
  have line: "shift_loop sc 0 (length (L ! j)) ln sh j s = Some s1"
    unfolding L_def s1_def nws_def using j Suc.prems(1) by (intro shift_line) (simp_all add: L_def)
  have step: "lines_loop sc j (j + Suc k) ln sh s = lines_loop sc (Suc j) (Suc j + k) ln sh s1"
    using line by (subst lines_loop.simps) (simp add: L_def)
  have L1: "vec2d s1 (lines2d ln) = L"
    by (simp add: s1_def add_shifts_def L_def)
  have n1: "vec s1 (noiseWords ln) = nws"
    using Suc.prems(1) by (simp add: s1_def add_shifts_def nws_def)
  have len1: "Suc j + k \<le> length (vec2d s1 (lines2d ln))"
    using Suc.prems(2) by (simp add: L1 L_def)
  have t: "take (Suc k) (drop j L) = L ! j # take k (drop (Suc j) L)"
    using j by (simp flip: Cons_nth_drop_Suc)
  note step
  also have "lines_loop sc (Suc j) (Suc j + k) ln sh s1 =
     Some (add_shifts sh (concat (map (rotations sc nws) (take k (drop (Suc j) L)))) s1)"
    using Suc.IH [OF Suc.prems(1) len1] unfolding L1 n1 .
  finally have "lines_loop sc j (j + Suc k) ln sh s =
     Some (add_shifts sh (concat (map (rotations sc nws) (take (Suc k) (drop j L)))) s)"
    by (simp only: s1_def add_shifts_add_shifts t list.map concat.simps)
  then show ?case
    unfolding L_def nws_def .
qed

lemma CircularShiftFilter_process_closed:
  assumes "noiseWords ln \<noteq> shifts sh"
  shows "CircularShiftFilter_process sc ln sh s =
     Some (add_shifts sh
       (concat (map (rotations sc (vec s (noiseWords ln))) (vec2d s (lines2d ln)))) s)"
  using lines_loop_closed [OF assms, of 0 "length (vec2d s (lines2d ln))" s sc]
  by (simp add: CircularShiftFilter_process_def)

lemma rotation_text_snoc: "rotation_text (ws @ [w]) = rotation_text ws @ w @ '' ''"
  by (simp add: rotation_text_def)

lemma rotation_text_last:
  assumes "ws \<noteq> []"
  shows "rotation_text ws \<noteq> [] \<and> last (rotation_text ws) = CHR '' ''"
proof -
  have "rotation_text ws = rotation_text (butlast ws) @ last ws @ '' ''"
    using assms rotation_text_snoc [of "butlast ws" "last ws"] by simp
  then show ?thesis
    by simp
qed

lemma rotations_member:
  assumes "r \<in> set (rotations sc nws vect)"
  shows "\<exists>i<length vect. r = rotation_text (rotate i vect)"
  using assms by (auto simp: rotations_def)

lemma rotations_end:
  assumes "r \<in> set (rotations sc nws vect)"
  shows "r \<noteq> [] \<and> last r = CHR '' ''"
proof -
  from assms obtain i where i: "i < length vect" "r = rotation_text (rotate i vect)"
    using rotations_member by blast
  then have "rotate i vect \<noteq> []"
    by auto
  then show ?thesis
    unfolding i(2) by (rule rotation_text_last)
qed

lemma set_std_sort: "set (std_sort cmp xs) = set xs"
  using mset_std_sort [of cmp xs, THEN arg_cong, of set_mset] by simp

section \<open>The input loops in closed form\<close>

lemma read_words_acc_all:
  fixes w0 :: "string list"
  shows "\<forall>acc. read_words ss acc = acc @ read_words ss []"
proof (induction ss w0 rule: read_words.induct)
  case (1 ss w0)
  show ?case
  proof (cases "extract_word ss")
    case None
    then show ?thesis
      by (simp add: read_words.simps [of ss])
  next
    case (Some p)
    obtain word rest where p: "p = (word, rest)"
      by (cases p)
    have ih: "read_words rest acc = acc @ read_words rest []" for acc
      using "1.IH" [OF Some p [symmetric]] by blast
    have u: "read_words ss acc = read_words rest (acc @ [word])" for acc
      using Some p by (simp add: read_words.simps [of ss acc])
    show ?thesis
    proof
      fix acc
      have "read_words ss acc = (acc @ [word]) @ read_words rest []"
        unfolding u by (rule ih)
      also have "\<dots> = acc @ read_words ss []"
        unfolding u [of "[]"] using ih [of "[word]"] by simp
      finally show "read_words ss acc = acc @ read_words ss []" .
    qed
  qed
qed

lemma read_words_acc: "read_words ss acc = acc @ read_words ss []"
  using read_words_acc_all by blast

lemma add_noise_add_noise: "add_noise ln ys (add_noise ln xs s) = add_noise ln (xs @ ys) s"
  by (simp add: add_noise_def)

lemma noise_words_loop_closed:
  "noise_words_loop sc ln ss s = add_noise ln (map (toLowerString sc) (read_words ss [])) s"
proof (induction sc ln ss s rule: noise_words_loop.induct)
  case (1 sc ln ss s)
  show ?case
  proof (cases "extract_word ss")
    case None
    then show ?thesis
      by (simp add: noise_words_loop.simps [of sc ln ss] read_words.simps [of ss] add_noise_def)
  next
    case (Some p)
    obtain noiseWord rest where p: "p = (noiseWord, rest)"
      by (cases p)
    have "noise_words_loop sc ln ss s
        = noise_words_loop sc ln rest (push_noiseWord ln (toLowerString sc noiseWord) s)"
      using Some p by (simp add: noise_words_loop.simps [of sc ln ss])
    also have "\<dots> = add_noise ln (map (toLowerString sc) (read_words rest []))
        (push_noiseWord ln (toLowerString sc noiseWord) s)"
      using Some p by (intro "1.IH") simp_all
    also have "\<dots> = add_noise ln (map (toLowerString sc) (noiseWord # read_words rest [])) s"
      by (simp add: push_noiseWord_def add_noise_def)
    also have "noiseWord # read_words rest [] = read_words ss []"
      using Some p read_words_acc [of rest "[noiseWord]"] by (simp add: read_words.simps [of ss "[]"])
    finally show ?thesis .
  qed
qed

lemma noise_lines_loop_closed:
  "noise_lines_loop sc ln stream s = add_noise ln (map (toLowerString sc) (tokens stream)) s"
proof (induction sc ln stream s rule: noise_lines_loop.induct)
  case (1 sc ln stream s)
  show ?case
  proof (cases "getline stream")
    case None
    then show ?thesis
      by (simp add: noise_lines_loop.simps [of sc ln stream] getlines.simps [of stream]
          tokens_def add_noise_def)
  next
    case (Some p)
    obtain nwline rest where p: "p = (nwline, rest)"
      by (cases p)
    have "noise_lines_loop sc ln stream s
        = noise_lines_loop sc ln rest (noise_words_loop sc ln nwline s)"
      using Some p by (simp add: noise_lines_loop.simps [of sc ln stream])
    also have "\<dots> = add_noise ln (map (toLowerString sc) (tokens rest))
        (noise_words_loop sc ln nwline s)"
      using Some p by (intro "1.IH") simp_all
    also have "\<dots> = add_noise ln (map (toLowerString sc) (read_words nwline [] @ tokens rest)) s"
      by (simp add: noise_words_loop_closed add_noise_add_noise)
    also have "read_words nwline [] @ tokens rest = tokens stream"
      using Some p by (simp add: tokens_def getlines.simps [of stream])
    finally show ?thesis .
  qed
qed

lemma input_lines_loop_closed:
  "input_lines_loop ln stream s = add_lines ln (map (\<lambda>line. read_words line []) (getlines stream)) s"
proof (induction ln stream s rule: input_lines_loop.induct)
  case (1 ln stream s)
  show ?case
  proof (cases "getline stream")
    case None
    then show ?thesis
      by (simp add: input_lines_loop.simps [of ln stream] getlines.simps [of stream] add_lines_def)
  next
    case (Some p)
    obtain line rest where p: "p = (line, rest)"
      by (cases p)
    have "input_lines_loop ln stream s
        = input_lines_loop ln rest (LineRepo_add2d ln (read_words line []) s)"
      using Some p by (simp add: input_lines_loop.simps [of ln stream])
    also have "\<dots> = add_lines ln (map (\<lambda>line. read_words line []) (getlines rest))
        (LineRepo_add2d ln (read_words line []) s)"
      by (rule "1.IH" [OF Some p [symmetric]])
    also have "\<dots> = add_lines ln (read_words line [] # map (\<lambda>line. read_words line []) (getlines rest)) s"
      by (simp add: add_lines_def LineRepo_add2d_def)
    also have "read_words line [] # map (\<lambda>line. read_words line []) (getlines rest)
        = map (\<lambda>line. read_words line []) (getlines stream)"
      using Some p by (simp add: getlines.simps [of stream])
    finally show ?thesis .
  qed
qed

lemma input_lines_loop_frame:
  "vec (input_lines_loop ln stream s) = vec s \<and> cout (input_lines_loop ln stream s) = cout s
   \<and> cerr (input_lines_loop ln stream s) = cerr s"
proof (induction ln stream s rule: input_lines_loop.induct)
  case (1 ln stream s)
  show ?case
  proof (cases "getline stream")
    case None
    then show ?thesis
      by (simp add: input_lines_loop.simps [of ln stream])
  next
    case (Some p)
    obtain line rest where p: "p = (line, rest)"
      by (cases p)
    have "input_lines_loop ln stream s
        = input_lines_loop ln rest (LineRepo_add2d ln (read_words line []) s)"
      using Some p by (simp add: input_lines_loop.simps [of ln stream])
    then show ?thesis
      using "1.IH" [OF Some p [symmetric]] by (simp add: LineRepo_add2d_def)
  qed
qed

lemma noise_lines_loop_streams:
  "cout (noise_lines_loop sc ln stream s) = cout s \<and> cerr (noise_lines_loop sc ln stream s) = cerr s"
  by (simp add: noise_lines_loop_closed add_noise_def)

lemma constructors_streams:
  "cout (snd (LineRepo_new s)) = cout s \<and> cerr (snd (LineRepo_new s)) = cerr s
   \<and> cout (snd (ShiftRepo_new s)) = cout s \<and> cerr (snd (ShiftRepo_new s)) = cerr s
   \<and> cout (snd (SortedShiftRepo_new s)) = cout s \<and> cerr (snd (SortedShiftRepo_new s)) = cerr s"
  by (simp add: LineRepo_new_def ShiftRepo_new_def SortedShiftRepo_new_def make_shared_vec_def
      make_shared_vec2d_def)

section \<open>A run of the program\<close>

text \<open>
  \<open>main\<close> allocates the noise words and the rotations in two vectors, and it never reads
  a vector out of range: every run returns or exits.
\<close>

lemma repositories_distinct:
  assumes "LineRepo_new s = (ln, s1)" and "ShiftRepo_new s1 = (sh, s2)"
  shows "noiseWords ln \<noteq> shifts sh"
  using assms
  by (auto simp: LineRepo_new_def ShiftRepo_new_def make_shared_vec_def make_shared_vec2d_def)

lemma InputFilter_process_defined: "InputFilter_process sc fs inputFile noiseWordFile ln s \<noteq> Undefined"
  by (simp add: InputFilter_process_def split: option.splits)

lemma main_defined: "main sc fs elapsed argc argv \<noteq> Undefined"
proof -
  obtain ln s1 where l: "LineRepo_new init_state = (ln, s1)"
    by (cases "LineRepo_new init_state")
  obtain sh s2 where h: "ShiftRepo_new s1 = (sh, s2)"
    by (cases "ShiftRepo_new s1")
  obtain ss s3 where o: "SortedShiftRepo_new s2 = (ss, s3)"
    by (cases "SortedShiftRepo_new s2")
  have d: "noiseWords ln \<noteq> shifts sh"
    using l h by (rule repositories_distinct)
  have "Pipeline_process sc fs inputFile noiseWord ln sh ss s3 \<noteq> Undefined" for inputFile noiseWord
    using InputFilter_process_defined [of sc fs inputFile noiseWord ln s3]
    by (cases "InputFilter_process sc fs inputFile noiseWord ln s3")
      (simp_all add: Pipeline_process_def CircularShiftFilter_process_closed [OF d] split: prod.splits)
  then show ?thesis
    by (simp add: main_def l h o split: result.splits)
qed

text \<open>The example store is what the input stage leaves behind, run on the example file
  system after \<open>main\<close> has constructed the three repositories.\<close>

lemma fox_state_input:
  "(case LineRepo_new init_state of (ln, s1) \<Rightarrow>
    case ShiftRepo_new s1 of (sh, s2) \<Rightarrow>
    case SortedShiftRepo_new s2 of (ss, s3) \<Rightarrow>
      (ln, sh, ss, InputFilter_process True fox_fs ''doc.txt'' ''noise.txt'' ln s3))
   = (fox_lines, fox_shifts, fox_sorted, Returned () fox_state)"
proof -
  have t: "map (toLowerString True) (tokens ''the A\<newline>Of'') = [''the'', ''a'', ''of'']"
    by code_simp
  have d: "map (\<lambda>line. read_words line []) (getlines ''The quick fox\<newline>'') = [[''The'', ''quick'', ''fox'']]"
    by code_simp
  show ?thesis
    by (simp add: LineRepo_new_def ShiftRepo_new_def SortedShiftRepo_new_def
        make_shared_vec_def make_shared_vec2d_def init_state_def
        InputFilter_process_def fox_fs_def noise_lines_loop_closed input_lines_loop_closed
        t d add_noise_def add_lines_def fox_state_def fox_lines_def fox_shifts_def fox_sorted_def
        fun_eq_iff eval_nat_numeral)
qed

text \<open>The document \<open>The quick fox\<close> with the noise words \<open>the\<close>, \<open>A\<close> and \<open>Of\<close>: the
  rotation that starts with \<open>The\<close> is left out, and \<open>fox\<close> comes before \<open>quick\<close>.\<close>

lemma main_example:
  "stdout_of (main True fox_fs 42 3 [''kwic'', ''doc.txt'', ''noise.txt''])
     = ''\<newline>fox The quick \<newline>\<newline>quick fox The \<newline>\<newline>\<newline>42 microseconds to complete.\<newline>''
   \<and> exit_status (main True fox_fs 42 3 [''kwic'', ''doc.txt'', ''noise.txt'']) = Some 0"
  by code_simp

section \<open>The claims\<close>

subsection \<open>C1: what the comparator decides on\<close>

text \<open>
  C1 (as amended). \<open>caseSensitive\<close> compares two strings position by position over their
  shared prefix, and the first position \<open>i\<close> at which the two characters differ decides:
  if their folded values differ there, the string with the smaller folded value orders
  first; if the folded values are equal there, the string with the lower-case character
  orders before the one with the upper-case character, and one of the two strings has the
  lower-case one; and if the strings agree on the whole shared prefix, the shorter orders
  before the longer.
\<close>

theorem caseSensitive_first_difference:
  "(i < min (length a) (length b) \<and> (\<forall>j<i. a ! j = b ! j)
      \<and> tolower (to_int sc (a ! i)) \<noteq> tolower (to_int sc (b ! i))
    \<longrightarrow> caseSensitive sc a b = (tolower (to_int sc (a ! i)) < tolower (to_int sc (b ! i))))
 \<and> (i < min (length a) (length b) \<and> (\<forall>j<i. a ! j = b ! j)
      \<and> tolower (to_int sc (a ! i)) = tolower (to_int sc (b ! i)) \<and> a ! i \<noteq> b ! i
    \<longrightarrow> caseSensitive sc a b = (islower (to_int sc (a ! i)) \<and> isupper (to_int sc (b ! i)))
      \<and> caseSensitive sc b a = (islower (to_int sc (b ! i)) \<and> isupper (to_int sc (a ! i)))
      \<and> (caseSensitive sc a b \<or> caseSensitive sc b a))
 \<and> ((\<forall>j<min (length a) (length b). a ! j = b ! j)
    \<longrightarrow> caseSensitive sc a b = (length a < length b))"
proof (intro conjI impI)
  assume h: "i < min (length a) (length b) \<and> (\<forall>j<i. a ! j = b ! j)
      \<and> tolower (to_int sc (a ! i)) \<noteq> tolower (to_int sc (b ! i))"
  then have "caseSensitive sc a b = cs_loop sc i a b"
    unfolding caseSensitive_def by (intro cs_loop_skip) simp_all
  also have "\<dots> = (tolower (to_int sc (a ! i)) < tolower (to_int sc (b ! i)))"
    using h by (subst cs_loop.simps) simp
  finally show "caseSensitive sc a b = (tolower (to_int sc (a ! i)) < tolower (to_int sc (b ! i)))" .
next
  assume h: "i < min (length a) (length b) \<and> (\<forall>j<i. a ! j = b ! j)
      \<and> tolower (to_int sc (a ! i)) = tolower (to_int sc (b ! i)) \<and> a ! i \<noteq> b ! i"
  have "caseSensitive sc a b = cs_loop sc i a b"
    using h unfolding caseSensitive_def by (intro cs_loop_skip) simp_all
  also have "\<dots> = (islower (to_int sc (a ! i)) \<and> isupper (to_int sc (b ! i)))"
    using h by (subst cs_loop.simps) simp
  finally show ab: "caseSensitive sc a b = (islower (to_int sc (a ! i)) \<and> isupper (to_int sc (b ! i)))" .
  have "caseSensitive sc b a = cs_loop sc i b a"
    using h unfolding caseSensitive_def by (intro cs_loop_skip) (simp_all add: min.commute)
  also have "\<dots> = (islower (to_int sc (b ! i)) \<and> isupper (to_int sc (a ! i)))"
    using h by (subst cs_loop.simps) auto
  finally show ba: "caseSensitive sc b a = (islower (to_int sc (b ! i)) \<and> isupper (to_int sc (a ! i)))" .
  show "caseSensitive sc a b \<or> caseSensitive sc b a"
    using h tolower_same_fold [of sc "a ! i" "b ! i"] unfolding ab ba by blast
next
  assume h: "\<forall>j<min (length a) (length b). a ! j = b ! j"
  then have "caseSensitive sc a b = cs_loop sc (min (length a) (length b)) a b"
    unfolding caseSensitive_def by (intro cs_loop_skip) simp_all
  also have "\<dots> = (length a < length b)"
    by (subst cs_loop.simps) simp
  finally show "caseSensitive sc a b = (length a < length b)" .
qed

text \<open>The theorem at \<open>apple pie\<close> and \<open>apricot\<close> (folded values differ at position 2),
  at \<open>the cat\<close> and \<open>the Cat\<close> (case alone differs at position 4), and at \<open>fox\<close> and
  \<open>fox the\<close> (one a prefix of the other).\<close>

theorem caseSensitive_first_difference_witness:
  "caseSensitive True ''apple pie'' ''apricot'' \<and> \<not> caseSensitive True ''apricot'' ''apple pie''
   \<and> caseSensitive True ''the cat'' ''the Cat'' \<and> \<not> caseSensitive True ''the Cat'' ''the cat''
   \<and> caseSensitive True ''fox'' ''fox the'' \<and> \<not> caseSensitive True ''fox the'' ''fox''"
  using caseSensitive_first_difference [of 2 "''apple pie''" "''apricot''" True]
    caseSensitive_first_difference [of 2 "''apricot''" "''apple pie''" True]
    caseSensitive_first_difference [of 4 "''the cat''" "''the Cat''" True]
    caseSensitive_first_difference [of 0 "''fox''" "''fox the''" True]
    caseSensitive_first_difference [of 0 "''fox the''" "''fox''" True]
  by (simp add: less_Suc_eq all_conj_distrib numeral_nat to_int_def tolower_def isupper_def islower_def)

text \<open>
  C1 as stated lets the first position where the \<^emph>\<open>folded\<close> characters differ decide.
  \<open>Aa\<close> and \<open>ab\<close> fold to the same character at position 0 and differ in their folded
  characters at position 1, where \<open>Aa\<close> has the smaller one; yet the loop returns at
  position 0, on the case of \<open>A\<close> and \<open>a\<close>, and orders \<open>ab\<close> first.
\<close>

theorem caseSensitive_folded_first_counterexample:
  "tolower (to_int True (''Aa'' ! 0)) = tolower (to_int True (''ab'' ! 0))
   \<and> tolower (to_int True (''Aa'' ! 1)) < tolower (to_int True (''ab'' ! 1))
   \<and> \<not> caseSensitive True ''Aa'' ''ab'' \<and> caseSensitive True ''ab'' ''Aa''"
  by (simp add: caseSensitive_def cs_loop.simps to_int_def tolower_def isupper_def islower_def)

subsection \<open>C6: the comparator is a strict weak ordering\<close>

text \<open>
  C6. \<open>caseSensitive\<close> is irreflexive, asymmetric and transitive, and being ordered
  neither way is transitive too; so the postcondition of the library's sort can be met
  for every sequence of strings: \<open>std_sort\<close> returns a permutation of its input in which
  no string is \<open>caseSensitive\<close>-less than one before it.
\<close>

theorem caseSensitive_strict_weak_order:
  "\<not> caseSensitive sc a a
   \<and> (caseSensitive sc a b \<longrightarrow> \<not> caseSensitive sc b a)
   \<and> (caseSensitive sc a b \<and> caseSensitive sc b c \<longrightarrow> caseSensitive sc a c)
   \<and> (\<not> caseSensitive sc a b \<and> \<not> caseSensitive sc b a
        \<and> \<not> caseSensitive sc b c \<and> \<not> caseSensitive sc c b
      \<longrightarrow> \<not> caseSensitive sc a c \<and> \<not> caseSensitive sc c a)
   \<and> sort_contract (caseSensitive sc) xs (std_sort (caseSensitive sc) xs)"
proof (intro conjI impI)
  show "\<not> caseSensitive sc a a"
    by (rule caseSensitive_irrefl)
  show "\<not> caseSensitive sc b a" if "caseSensitive sc a b"
    using that by (rule caseSensitive_asym)
  show "caseSensitive sc a c" if "caseSensitive sc a b \<and> caseSensitive sc b c"
    using that caseSensitive_trans by blast
  show "sort_contract (caseSensitive sc) xs (std_sort (caseSensitive sc) xs)"
    by (rule std_sort_contract)
next
  assume h: "\<not> caseSensitive sc a b \<and> \<not> caseSensitive sc b a
        \<and> \<not> caseSensitive sc b c \<and> \<not> caseSensitive sc c b"
  show "\<not> caseSensitive sc a c"
    using h caseSensitive_negtrans [of sc b c a] by blast
  show "\<not> caseSensitive sc c a"
    using h caseSensitive_negtrans [of sc b a c] by blast
qed

text \<open>The theorem at three rotations of \<open>cat sat\<close>, and at three equal strings for
  the strings ordered neither way.\<close>

theorem caseSensitive_strict_weak_order_witness:
  "\<not> caseSensitive True ''cat sat '' ''cat sat ''
   \<and> caseSensitive True ''cat sat '' ''Cat sat '' \<and> \<not> caseSensitive True ''Cat sat '' ''cat sat ''
   \<and> caseSensitive True ''Cat sat '' ''sat cat '' \<and> caseSensitive True ''cat sat '' ''sat cat ''
   \<and> sort_contract (caseSensitive True) [''sat cat '', ''Cat sat '', ''cat sat '']
        [''cat sat '', ''Cat sat '', ''sat cat '']"
  using caseSensitive_strict_weak_order
      [of True "''cat sat ''" "''Cat sat ''" "''sat cat ''" "[''sat cat '', ''Cat sat '', ''cat sat '']"]
    caseSensitive_strict_weak_order
      [of True "''cat sat ''" "''cat sat ''" "''cat sat ''" "[]"]
  by (simp add: caseSensitive_def cs_loop.simps to_int_def tolower_def isupper_def islower_def)

subsection \<open>C7: sorting is idempotent\<close>

text \<open>
  C7. Sorting a sequence of rotation strings that is already sorted under
  \<open>caseSensitive\<close> returns it as it is, so sorting twice is sorting once: for
  \<open>std_sort\<close>, for every function that meets the postcondition of the library's sort,
  and for \<open>AlphabetizerFilter::process\<close> run a second time on the store it left.
\<close>

theorem sort_idempotent:
  "std_sort (caseSensitive sc) (std_sort (caseSensitive sc) xs) = std_sort (caseSensitive sc) xs
   \<and> (sorted_wrt (\<lambda>x y. \<not> caseSensitive sc y x) xs \<longrightarrow> std_sort (caseSensitive sc) xs = xs)
   \<and> (sort_contract (caseSensitive sc) xs ys \<and> sort_contract (caseSensitive sc) ys zs \<longrightarrow> zs = ys)
   \<and> (case AlphabetizerFilter_process sc sh ss s of
        (ss', s') \<Rightarrow> AlphabetizerFilter_process sc sh ss' s' = (ss', s'))"
proof (intro conjI impI)
  show "std_sort (caseSensitive sc) (std_sort (caseSensitive sc) xs) = std_sort (caseSensitive sc) xs"
    by (rule std_sort_idem)
  show "std_sort (caseSensitive sc) xs = xs" if "sorted_wrt (\<lambda>x y. \<not> caseSensitive sc y x) xs"
    using that by (rule std_sort_sorted_id)
  show "zs = ys"
    if "sort_contract (caseSensitive sc) xs ys \<and> sort_contract (caseSensitive sc) ys zs"
    using that by (simp add: sort_contract_unique std_sort_idem)
  show "case AlphabetizerFilter_process sc sh ss s of
        (ss', s') \<Rightarrow> AlphabetizerFilter_process sc sh ss' s' = (ss', s')"
    by (simp add: AlphabetizerFilter_process_def SortedShiftRepo_copy_def getSortedShifts_def
        getShifts_def std_sort_idem)
qed

text \<open>The theorem at the two rotations of \<open>the quick fox\<close> that the program keeps,
  unsorted and sorted.\<close>

theorem sort_idempotent_witness:
  "sort_contract (caseSensitive True) [''quick fox the '', ''fox the quick '']
     [''fox the quick '', ''quick fox the '']
   \<and> sort_contract (caseSensitive True) [''fox the quick '', ''quick fox the '']
     [''fox the quick '', ''quick fox the '']
   \<and> sorted_wrt (\<lambda>x y. \<not> caseSensitive True y x) [''fox the quick '', ''quick fox the '']
   \<and> std_sort (caseSensitive True) [''fox the quick '', ''quick fox the '']
     = [''fox the quick '', ''quick fox the '']
   \<and> std_sort (caseSensitive True) (std_sort (caseSensitive True) [''quick fox the '', ''fox the quick ''])
     = std_sort (caseSensitive True) [''quick fox the '', ''fox the quick '']"
  using sort_idempotent [of True "[''quick fox the '', ''fox the quick '']"
      "[''fox the quick '', ''quick fox the '']" "[''fox the quick '', ''quick fox the '']"]
    sort_idempotent [of True "[''fox the quick '', ''quick fox the '']"]
  by (simp add: sort_contract_def caseSensitive_def cs_loop.simps to_int_def tolower_def
      isupper_def islower_def)

subsection \<open>C2: which rotations of a line are emitted\<close>

text \<open>
  C2. \<open>CircularShiftFilter::process\<close> returns, and it has added to the rotation
  repository, line after line of the document, for each line \<open>vect\<close> of \<open>n\<close> words and
  in increasing order of the offset \<open>i\<close> from \<open>0\<close> to \<open>n - 1\<close>, the text of the line
  rotated left by \<open>i\<close> for exactly those offsets whose word \<open>vect ! i\<close> is not a noise
  word; nothing else in the store has changed, every line is back in its place. The inner
  loop, run on the \<open>j\<close>-th line alone, adds the rotations of that line. The word
  \<open>vect ! i\<close> is the front word of the line rotated by \<open>i\<close>. The noise words and the
  rotations are kept in two vectors, as \<open>main\<close> allocates them.
\<close>

theorem CircularShiftFilter_rotations:
  assumes "noiseWords ln \<noteq> shifts sh"
    and "nws = vec s (noiseWords ln)" and "doc = vec2d s (lines2d ln)"
  shows "CircularShiftFilter_process sc ln sh s =
      Some (add_shifts sh
        (concat (map (\<lambda>vect. map (\<lambda>i. rotation_text (rotate i vect))
                        (filter (\<lambda>i. \<not> isNoiseWord sc (vect ! i) nws) [0..<length vect])) doc)) s)
    \<and> (\<forall>j<length doc. shift_loop sc 0 (length (doc ! j)) ln sh j s =
          Some (add_shifts sh
            (map (\<lambda>i. rotation_text (rotate i (doc ! j)))
               (filter (\<lambda>i. \<not> isNoiseWord sc (doc ! j ! i) nws) [0..<length (doc ! j)])) s))
    \<and> (\<forall>j<length doc. \<forall>i<length (doc ! j).
          hd (rotate i (doc ! j)) = doc ! j ! i
          \<and> rotate i (doc ! j) = drop i (doc ! j) @ take i (doc ! j))"
proof (intro conjI allI impI)
  have "rotations sc nws = (\<lambda>vect. map (\<lambda>i. rotation_text (rotate i vect))
      (filter (\<lambda>i. \<not> isNoiseWord sc (vect ! i) nws) [0..<length vect]))"
    by (simp add: rotations_def fun_eq_iff)
  then show "CircularShiftFilter_process sc ln sh s =
      Some (add_shifts sh
        (concat (map (\<lambda>vect. map (\<lambda>i. rotation_text (rotate i vect))
                        (filter (\<lambda>i. \<not> isNoiseWord sc (vect ! i) nws) [0..<length vect])) doc)) s)"
    using CircularShiftFilter_process_closed [OF assms(1), of sc s] by (simp add: assms(2,3))
next
  fix j
  assume "j < length doc"
  then show "shift_loop sc 0 (length (doc ! j)) ln sh j s =
          Some (add_shifts sh
            (map (\<lambda>i. rotation_text (rotate i (doc ! j)))
               (filter (\<lambda>i. \<not> isNoiseWord sc (doc ! j ! i) nws) [0..<length (doc ! j)])) s)"
    using shift_line [of j s ln sh sc] assms(1) by (simp add: assms(2,3) rotations_def)
next
  fix j i
  assume "i < length (doc ! j)"
  then have "doc ! j \<noteq> []" "i mod length (doc ! j) = i" "i \<le> length (doc ! j)"
    by auto
  then show "hd (rotate i (doc ! j)) = doc ! j ! i"
    using hd_rotate_conv_nth [of "doc ! j" i] by simp
  show "rotate i (doc ! j) = drop i (doc ! j) @ take i (doc ! j)"
    using \<open>i mod length (doc ! j) = i\<close> rotate_drop_take [of i "doc ! j"] by simp
qed

text \<open>The theorem at the document of three lines: two rotations of \<open>The quick fox\<close>,
  none of the empty line, one of \<open>of Fox\<close>.\<close>

theorem CircularShiftFilter_rotations_witness:
  "CircularShiftFilter_process True fox_lines fox_shifts doc_state =
     Some (add_shifts fox_shifts [''quick fox The '', ''fox The quick '', ''Fox of ''] doc_state)
   \<and> shift_loop True 0 3 fox_lines fox_shifts 0 doc_state =
     Some (add_shifts fox_shifts [''quick fox The '', ''fox The quick ''] doc_state)
   \<and> shift_loop True 0 0 fox_lines fox_shifts 1 doc_state = Some (add_shifts fox_shifts [] doc_state)
   \<and> shift_loop True 0 2 fox_lines fox_shifts 2 doc_state =
     Some (add_shifts fox_shifts [''Fox of ''] doc_state)"
proof -
  have h1: "noiseWords fox_lines \<noteq> shifts fox_shifts"
    and h2: "[''the'', ''a'', ''of''] = vec doc_state (noiseWords fox_lines)"
    and h3: "[[''The'', ''quick'', ''fox''], [], [''of'', ''Fox'']] = vec2d doc_state (lines2d fox_lines)"
    by (simp_all add: doc_state_def fox_state_def fox_lines_def fox_shifts_def init_state_def)
  have e: "concat (map (\<lambda>vect. map (\<lambda>i. rotation_text (rotate i vect))
                        (filter (\<lambda>i. \<not> isNoiseWord True (vect ! i) [''the'', ''a'', ''of'']) [0..<length vect]))
             [[''The'', ''quick'', ''fox''], [], [''of'', ''Fox'']])
      = [''quick fox The '', ''fox The quick '', ''Fox of '']"
    by code_simp
  have e0: "map (\<lambda>i. rotation_text (rotate i ([[''The'', ''quick'', ''fox''], [], [''of'', ''Fox'']] ! 0)))
        (filter (\<lambda>i. \<not> isNoiseWord True ([[''The'', ''quick'', ''fox''], [], [''of'', ''Fox'']] ! 0 ! i) [''the'', ''a'', ''of''])
           [0..<3])
      = [''quick fox The '', ''fox The quick '']"
    and e1: "map (\<lambda>i. rotation_text (rotate i ([[''The'', ''quick'', ''fox''], [], [''of'', ''Fox'']] ! 1)))
        (filter (\<lambda>i. \<not> isNoiseWord True ([[''The'', ''quick'', ''fox''], [], [''of'', ''Fox'']] ! 1 ! i) [''the'', ''a'', ''of''])
           [0..<0])
      = []"
    and e2: "map (\<lambda>i. rotation_text (rotate i ([[''The'', ''quick'', ''fox''], [], [''of'', ''Fox'']] ! 2)))
        (filter (\<lambda>i. \<not> isNoiseWord True ([[''The'', ''quick'', ''fox''], [], [''of'', ''Fox'']] ! 2 ! i) [''the'', ''a'', ''of''])
           [0..<2])
      = [''Fox of '']"
    by code_simp+
  have l: "length ([[''The'', ''quick'', ''fox''], [], [''of'', ''Fox'']] ! 0) = 3"
    "length ([[''The'', ''quick'', ''fox''], [], [''of'', ''Fox'']] ! 1) = 0"
    "length ([[''The'', ''quick'', ''fox''], [], [''of'', ''Fox'']] ! 2) = 2"
    "(0::nat) < length [[''The'', ''quick'', ''fox''], [], [''of'', ''Fox'']]"
    "(1::nat) < length [[''The'', ''quick'', ''fox''], [], [''of'', ''Fox'']]"
    "(2::nat) < length [[''The'', ''quick'', ''fox''], [], [''of'', ''Fox'']]"
    by simp_all
  note t = CircularShiftFilter_rotations [OF h1 h2 h3, of True]
  have p: "CircularShiftFilter_process True fox_lines fox_shifts doc_state =
     Some (add_shifts fox_shifts [''quick fox The '', ''fox The quick '', ''Fox of ''] doc_state)"
    using t [THEN conjunct1] by (simp only: e)
  have q0: "shift_loop True 0 3 fox_lines fox_shifts 0 doc_state =
     Some (add_shifts fox_shifts [''quick fox The '', ''fox The quick ''] doc_state)"
    using t [THEN conjunct2, THEN conjunct1, rule_format, OF l(4)] by (simp only: e0 l)
  have q1: "shift_loop True 0 0 fox_lines fox_shifts 1 doc_state = Some (add_shifts fox_shifts [] doc_state)"
    using t [THEN conjunct2, THEN conjunct1, rule_format, OF l(5)] by (simp only: e1 l)
  have q2: "shift_loop True 0 2 fox_lines fox_shifts 2 doc_state =
     Some (add_shifts fox_shifts [''Fox of ''] doc_state)"
    using t [THEN conjunct2, THEN conjunct1, rule_format, OF l(6)] by (simp only: e2 l)
  show ?thesis
    using p q0 q1 q2 by blast
qed

subsection \<open>C3: how many rotations a line gives\<close>

text \<open>
  C3. \<open>CircularShiftFilter::process\<close> returns, and what it has added to the rotation
  repository falls into one part for every line of the document, in order; the part of a
  line of \<open>n\<close> words of which \<open>m\<close> positions hold a noise word, every position counted
  once, has exactly \<open>n - m\<close> rotations, so that the repository has grown by the sum of
  these numbers. The inner loop, run on one line alone, adds \<open>n - m\<close> rotations, and
  none for a line of no words.
\<close>

theorem CircularShiftFilter_rotation_count:
  assumes "noiseWords ln \<noteq> shifts sh"
    and "nws = vec s (noiseWords ln)" and "doc = vec2d s (lines2d ln)"
  shows "(\<exists>s' parts. CircularShiftFilter_process sc ln sh s = Some s'
        \<and> vec s' (shifts sh) = vec s (shifts sh) @ concat parts
        \<and> length parts = length doc
        \<and> (\<forall>j<length doc.
              length (parts ! j) = length (doc ! j)
                - length (filter (\<lambda>i. isNoiseWord sc (doc ! j ! i) nws) [0..<length (doc ! j)]))
        \<and> length (vec s' (shifts sh)) = length (vec s (shifts sh))
            + sum_list (map (\<lambda>vect. length vect
                - length (filter (\<lambda>i. isNoiseWord sc (vect ! i) nws) [0..<length vect])) doc))
    \<and> (\<forall>j<length doc. \<exists>s'. shift_loop sc 0 (length (doc ! j)) ln sh j s = Some s'
          \<and> length (vec s' (shifts sh)) = length (vec s (shifts sh))
              + (length (doc ! j)
                 - length (filter (\<lambda>i. isNoiseWord sc (doc ! j ! i) nws) [0..<length (doc ! j)]))
          \<and> (length (doc ! j) = 0 \<longrightarrow> vec s' (shifts sh) = vec s (shifts sh)))"
proof (intro conjI allI impI)
  define parts where "parts = map (rotations sc nws) doc"
  define s' where "s' = add_shifts sh (concat parts) s"
  have p: "CircularShiftFilter_process sc ln sh s = Some s'"
    using CircularShiftFilter_process_closed [OF assms(1), of sc s]
    by (simp add: s'_def parts_def assms(2,3))
  have v: "vec s' (shifts sh) = vec s (shifts sh) @ concat parts"
    by (simp add: s'_def add_shifts_def)
  have l: "length parts = length doc"
    by (simp add: parts_def)
  have e: "\<forall>j<length doc.
      length (parts ! j) = length (doc ! j)
        - length (filter (\<lambda>i. isNoiseWord sc (doc ! j ! i) nws) [0..<length (doc ! j)])"
    by (simp add: parts_def length_rotations)
  have "length (concat parts) = sum_list (map (\<lambda>vect. length vect
      - length (filter (\<lambda>i. isNoiseWord sc (vect ! i) nws) [0..<length vect])) doc)"
    by (simp add: parts_def length_concat comp_def length_rotations)
  then have n: "length (vec s' (shifts sh)) = length (vec s (shifts sh))
      + sum_list (map (\<lambda>vect. length vect
          - length (filter (\<lambda>i. isNoiseWord sc (vect ! i) nws) [0..<length vect])) doc)"
    by (simp add: v)
  show "\<exists>s' parts. CircularShiftFilter_process sc ln sh s = Some s'
        \<and> vec s' (shifts sh) = vec s (shifts sh) @ concat parts
        \<and> length parts = length doc
        \<and> (\<forall>j<length doc.
              length (parts ! j) = length (doc ! j)
                - length (filter (\<lambda>i. isNoiseWord sc (doc ! j ! i) nws) [0..<length (doc ! j)]))
        \<and> length (vec s' (shifts sh)) = length (vec s (shifts sh))
            + sum_list (map (\<lambda>vect. length vect
                - length (filter (\<lambda>i. isNoiseWord sc (vect ! i) nws) [0..<length vect])) doc)"
    using p v l e n by blast
next
  fix j
  assume j: "j < length doc"
  define s' where "s' = add_shifts sh (rotations sc nws (doc ! j)) s"
  have "shift_loop sc 0 (length (doc ! j)) ln sh j s = Some s'"
    using shift_line [of j s ln sh sc] j assms(1) by (simp add: assms(2,3) s'_def)
  moreover have "length (vec s' (shifts sh)) = length (vec s (shifts sh))
      + (length (doc ! j)
         - length (filter (\<lambda>i. isNoiseWord sc (doc ! j ! i) nws) [0..<length (doc ! j)]))"
    by (simp add: s'_def add_shifts_def length_rotations)
  moreover have "length (doc ! j) = 0 \<longrightarrow> vec s' (shifts sh) = vec s (shifts sh)"
    by (simp add: s'_def add_shifts_def rotations_def)
  ultimately show "\<exists>s'. shift_loop sc 0 (length (doc ! j)) ln sh j s = Some s'
          \<and> length (vec s' (shifts sh)) = length (vec s (shifts sh))
              + (length (doc ! j)
                 - length (filter (\<lambda>i. isNoiseWord sc (doc ! j ! i) nws) [0..<length (doc ! j)]))
          \<and> (length (doc ! j) = 0 \<longrightarrow> vec s' (shifts sh) = vec s (shifts sh))"
    by blast
qed

text \<open>The theorem at the document of three lines: \<open>3 - 1\<close> rotations, none, and
  \<open>2 - 1\<close>.\<close>

theorem CircularShiftFilter_rotation_count_witness:
  "(\<exists>s'. CircularShiftFilter_process True fox_lines fox_shifts doc_state = Some s'
      \<and> length (vec s' (shifts fox_shifts)) = length (vec doc_state (shifts fox_shifts)) + 3)
   \<and> (\<exists>s'. shift_loop True 0 3 fox_lines fox_shifts 0 doc_state = Some s'
      \<and> length (vec s' (shifts fox_shifts)) = length (vec doc_state (shifts fox_shifts)) + (3 - 1))
   \<and> (\<exists>s'. shift_loop True 0 0 fox_lines fox_shifts 1 doc_state = Some s'
      \<and> vec s' (shifts fox_shifts) = vec doc_state (shifts fox_shifts))"
proof -
  have h1: "noiseWords fox_lines \<noteq> shifts fox_shifts"
    and h2: "[''the'', ''a'', ''of''] = vec doc_state (noiseWords fox_lines)"
    and h3: "[[''The'', ''quick'', ''fox''], [], [''of'', ''Fox'']] = vec2d doc_state (lines2d fox_lines)"
    by (simp_all add: doc_state_def fox_state_def fox_lines_def fox_shifts_def init_state_def)
  have e: "sum_list (map (\<lambda>vect. length vect
        - length (filter (\<lambda>i. isNoiseWord True (vect ! i) [''the'', ''a'', ''of'']) [0..<length vect]))
      [[''The'', ''quick'', ''fox''], [], [''of'', ''Fox'']]) = 3"
    by code_simp
  have e0: "length (filter (\<lambda>i. isNoiseWord True ([[''The'', ''quick'', ''fox''], [], [''of'', ''Fox'']] ! 0 ! i)
        [''the'', ''a'', ''of'']) [0..<3]) = 1"
    by code_simp
  have l: "length ([[''The'', ''quick'', ''fox''], [], [''of'', ''Fox'']] ! 0) = 3"
    "length ([[''The'', ''quick'', ''fox''], [], [''of'', ''Fox'']] ! 1) = 0"
    "(0::nat) < length [[''The'', ''quick'', ''fox''], [], [''of'', ''Fox'']]"
    "(1::nat) < length [[''The'', ''quick'', ''fox''], [], [''of'', ''Fox'']]"
    by simp_all
  note t = CircularShiftFilter_rotation_count [OF h1 h2 h3, of True]
  have p: "\<exists>s'. CircularShiftFilter_process True fox_lines fox_shifts doc_state = Some s'
      \<and> length (vec s' (shifts fox_shifts)) = length (vec doc_state (shifts fox_shifts)) + 3"
    using t [THEN conjunct1] unfolding e by blast
  have q0: "\<exists>s'. shift_loop True 0 3 fox_lines fox_shifts 0 doc_state = Some s'
      \<and> length (vec s' (shifts fox_shifts)) = length (vec doc_state (shifts fox_shifts)) + (3 - 1)"
    using t [THEN conjunct2, rule_format, OF l(3)] unfolding l e0 by blast
  have q1: "\<exists>s'. shift_loop True 0 0 fox_lines fox_shifts 1 doc_state = Some s'
      \<and> vec s' (shifts fox_shifts) = vec doc_state (shifts fox_shifts)"
    using t [THEN conjunct2, rule_format, OF l(4)] unfolding l by blast
  show ?thesis
    using p q0 q1 by blast
qed

subsection \<open>C10: every rotation ends with a space\<close>

text \<open>
  C10. Every string the inner loop adds for a line \<open>vect\<close> of \<open>n \<ge> 1\<close> words is the
  concatenation, over the \<open>n\<close> words of a rotation of \<open>vect\<close>, of the word followed by
  one space; it is not empty and its last character is a space. Hence, when the rotation
  repository starts empty, every string of the vector that \<open>AlphabetizerFilter::process\<close>
  leaves in the sorted repository ends with a space.
\<close>

theorem rotation_ends_with_space:
  "(j < length (vec2d s (lines2d ln)) \<and> noiseWords ln \<noteq> shifts sh
      \<and> vect = vec2d s (lines2d ln) ! j
    \<longrightarrow> (\<exists>s' new. shift_loop sc 0 (length vect) ln sh j s = Some s'
          \<and> vec s' (shifts sh) = vec s (shifts sh) @ new
          \<and> (\<forall>r\<in>set new.
                (\<exists>i<length vect. r = concat (map (\<lambda>w. w @ '' '') (rotate i vect)))
                \<and> r \<noteq> [] \<and> last r = CHR '' '')))
   \<and> (noiseWords ln \<noteq> shifts sh \<and> vec s (shifts sh) = []
    \<longrightarrow> (\<exists>s1. CircularShiftFilter_process sc ln sh s = Some s1
          \<and> (\<forall>r\<in>set (vec (snd (AlphabetizerFilter_process sc sh ss s1))
                        (getSortedShifts (fst (AlphabetizerFilter_process sc sh ss s1)))).
                r \<noteq> [] \<and> last r = CHR '' '')))"
proof (intro conjI impI)
  assume h: "j < length (vec2d s (lines2d ln)) \<and> noiseWords ln \<noteq> shifts sh
      \<and> vect = vec2d s (lines2d ln) ! j"
  define new where "new = rotations sc (vec s (noiseWords ln)) vect"
  have "shift_loop sc 0 (length vect) ln sh j s = Some (add_shifts sh new s)"
    using h shift_line [of j s ln sh sc] by (simp add: new_def)
  moreover have "vec (add_shifts sh new s) (shifts sh) = vec s (shifts sh) @ new"
    by (simp add: add_shifts_def)
  moreover have "\<forall>r\<in>set new.
      (\<exists>i<length vect. r = concat (map (\<lambda>w. w @ '' '') (rotate i vect)))
      \<and> r \<noteq> [] \<and> last r = CHR '' ''"
    using rotations_member rotations_end unfolding new_def rotation_text_def by blast
  ultimately show "\<exists>s' new. shift_loop sc 0 (length vect) ln sh j s = Some s'
          \<and> vec s' (shifts sh) = vec s (shifts sh) @ new
          \<and> (\<forall>r\<in>set new.
                (\<exists>i<length vect. r = concat (map (\<lambda>w. w @ '' '') (rotate i vect)))
                \<and> r \<noteq> [] \<and> last r = CHR '' '')"
    by blast
next
  assume h: "noiseWords ln \<noteq> shifts sh \<and> vec s (shifts sh) = []"
  define new where "new = concat (map (rotations sc (vec s (noiseWords ln))) (vec2d s (lines2d ln)))"
  define s1 where "s1 = add_shifts sh new s"
  have p: "CircularShiftFilter_process sc ln sh s = Some s1"
    using h by (simp add: CircularShiftFilter_process_closed s1_def new_def)
  have "vec (snd (AlphabetizerFilter_process sc sh ss s1))
          (getSortedShifts (fst (AlphabetizerFilter_process sc sh ss s1)))
      = std_sort (caseSensitive sc) new"
    using h by (simp add: AlphabetizerFilter_process_def SortedShiftRepo_copy_def
        getSortedShifts_def getShifts_def s1_def add_shifts_def)
  moreover have "\<forall>r\<in>set new. r \<noteq> [] \<and> last r = CHR '' ''"
    using rotations_end by (auto simp: new_def)
  ultimately have "\<forall>r\<in>set (vec (snd (AlphabetizerFilter_process sc sh ss s1))
                        (getSortedShifts (fst (AlphabetizerFilter_process sc sh ss s1)))).
                r \<noteq> [] \<and> last r = CHR '' ''"
    by (simp add: set_std_sort)
  then show "\<exists>s1. CircularShiftFilter_process sc ln sh s = Some s1
          \<and> (\<forall>r\<in>set (vec (snd (AlphabetizerFilter_process sc sh ss s1))
                        (getSortedShifts (fst (AlphabetizerFilter_process sc sh ss s1)))).
                r \<noteq> [] \<and> last r = CHR '' '')"
    using p by blast
qed

text \<open>The theorem at the example store.\<close>

theorem rotation_ends_with_space_witness:
  "(\<exists>s' new. shift_loop True 0 (length [''The'', ''quick'', ''fox'']) fox_lines fox_shifts 0 fox_state = Some s'
          \<and> vec s' (shifts fox_shifts) = vec fox_state (shifts fox_shifts) @ new
          \<and> (\<forall>r\<in>set new.
                (\<exists>i<length [''The'', ''quick'', ''fox''].
                   r = concat (map (\<lambda>w. w @ '' '') (rotate i [''The'', ''quick'', ''fox''])))
                \<and> r \<noteq> [] \<and> last r = CHR '' ''))
   \<and> (\<exists>s1. CircularShiftFilter_process True fox_lines fox_shifts fox_state = Some s1
          \<and> (\<forall>r\<in>set (vec (snd (AlphabetizerFilter_process True fox_shifts fox_sorted s1))
                        (getSortedShifts (fst (AlphabetizerFilter_process True fox_shifts fox_sorted s1)))).
                r \<noteq> [] \<and> last r = CHR '' ''))"
proof -
  have h1: "0 < length (vec2d fox_state (lines2d fox_lines))"
    and h2: "noiseWords fox_lines \<noteq> shifts fox_shifts"
    and h3: "[''The'', ''quick'', ''fox''] = vec2d fox_state (lines2d fox_lines) ! 0"
    and h4: "vec fox_state (shifts fox_shifts) = []"
    by (simp_all add: fox_state_def fox_lines_def fox_shifts_def init_state_def)
  show ?thesis
    using rotation_ends_with_space [of 0 fox_state fox_lines fox_shifts "[''The'', ''quick'', ''fox'']"
        True fox_sorted] h1 h2 h3 h4
    by blast
qed

subsection \<open>C4: the noise membership test\<close>

text \<open>
  C4. After \<open>InputFilter::process\<close> has stored the noise words, \<open>isNoiseWord\<close> holds
  of a word \<open>w\<close> if and only if the lower-case form of \<open>w\<close> is equal to the lower-case
  form of some token of the noise-word file: the test ignores case and matches whole
  words only. The noise-word vector starts empty, as \<open>LineRepo()\<close> allocates it.
\<close>

theorem noise_membership:
  assumes "vec s (noiseWords ln) = []"
    and "fs noiseWordFile = Some nwf" and "fs inputFile = Some inpf"
  shows "(isNoiseWord sc w (vec (noise_lines_loop sc ln (stream_bytes nwf) s) (noiseWords ln))
       \<longleftrightarrow> (\<exists>t\<in>set (tokens (stream_bytes nwf)). toLowerString sc w = toLowerString sc t))
    \<and> (\<exists>s'. InputFilter_process sc fs inputFile noiseWordFile ln s = Returned () s'
         \<and> (isNoiseWord sc w (vec s' (noiseWords ln))
            \<longleftrightarrow> (\<exists>t\<in>set (tokens (stream_bytes nwf)). toLowerString sc w = toLowerString sc t)))"
proof -
  have n: "vec (noise_lines_loop sc ln (stream_bytes nwf) s) (noiseWords ln)
      = map (toLowerString sc) (tokens (stream_bytes nwf))"
    by (simp add: noise_lines_loop_closed add_noise_def assms(1))
  have m: "isNoiseWord sc w (map (toLowerString sc) (tokens (stream_bytes nwf)))
      \<longleftrightarrow> (\<exists>t\<in>set (tokens (stream_bytes nwf)). toLowerString sc w = toLowerString sc t)"
    by (auto simp: isNoiseWord_def)
  have "InputFilter_process sc fs inputFile noiseWordFile ln s
      = Returned () (input_lines_loop ln (stream_bytes inpf) (noise_lines_loop sc ln (stream_bytes nwf) s))"
    by (simp add: InputFilter_process_def assms(2,3))
  then show ?thesis
    using n m by (simp add: input_lines_loop_frame)
qed

text \<open>The theorem at the noise words \<open>the\<close>, \<open>A\<close> and \<open>Of\<close>, read from two lines:
  \<open>THE\<close> and \<open>of\<close> are noise words, the prefix \<open>th\<close> is not.\<close>

theorem noise_membership_witness:
  "isNoiseWord True ''THE''
     (vec (noise_lines_loop True fox_lines ''the A\<newline>Of'' init_state) (noiseWords fox_lines))
   \<and> \<not> isNoiseWord True ''th''
     (vec (noise_lines_loop True fox_lines ''the A\<newline>Of'' init_state) (noiseWords fox_lines))
   \<and> (\<exists>s'. InputFilter_process True fox_fs ''doc.txt'' ''noise.txt'' fox_lines init_state = Returned () s'
         \<and> isNoiseWord True ''of'' (vec s' (noiseWords fox_lines)))"
proof -
  have h1: "vec init_state (noiseWords fox_lines) = []"
    and h2: "fox_fs ''noise.txt'' = Some (Readable ''the A\<newline>Of'')"
    and h3: "fox_fs ''doc.txt'' = Some (Readable ''The quick fox\<newline>'')"
    by (simp_all add: init_state_def fox_fs_def)
  have t: "tokens ''the A\<newline>Of'' = [''the'', ''A'', ''Of'']"
    by code_simp
  have l: "toLowerString True ''THE'' = ''the''" "toLowerString True ''th'' = ''th''"
    "toLowerString True ''of'' = ''of''" "toLowerString True ''the'' = ''the''"
    "toLowerString True ''A'' = ''a''" "toLowerString True ''Of'' = ''of''"
    by code_simp+
  show ?thesis
    using noise_membership [OF h1 h2 h3, of True "''THE''"]
      noise_membership [OF h1 h2 h3, of True "''th''"]
      noise_membership [OF h1 h2 h3, of True "''of''"]
    by (simp add: t l)
qed

subsection \<open>C5: the ordering stage sorts the rotation stage's vector in place\<close>

text \<open>
  C5 (as amended). \<open>AlphabetizerFilter::process\<close> does not copy its input:
  \<open>SortedShiftRepo::copy\<close> assigns the shared pointer, so the sorted repository points at
  the vector of the rotation repository, and that vector is sorted where it is. Afterwards
  the rotation repository holds what it held in sorted order, a permutation of it, and it
  holds the same sequence as before exactly when that sequence was sorted already;
  nothing else in the store is changed.
\<close>

theorem AlphabetizerFilter_sorts_in_place:
  "AlphabetizerFilter_process sc sh ss s =
     (ss\<lparr>sortedShifts := getShifts sh\<rparr>,
      s\<lparr>vec := (vec s)(getShifts sh := std_sort (caseSensitive sc) (vec s (getShifts sh)))\<rparr>)
   \<and> getSortedShifts (fst (AlphabetizerFilter_process sc sh ss s)) = getShifts sh
   \<and> sort_contract (caseSensitive sc) (vec s (getShifts sh))
        (vec (snd (AlphabetizerFilter_process sc sh ss s)) (getShifts sh))
   \<and> (vec (snd (AlphabetizerFilter_process sc sh ss s)) (getShifts sh) = vec s (getShifts sh))
      = sorted_wrt (\<lambda>x y. \<not> caseSensitive sc y x) (vec s (getShifts sh))"
proof -
  have p: "AlphabetizerFilter_process sc sh ss s =
     (ss\<lparr>sortedShifts := getShifts sh\<rparr>,
      s\<lparr>vec := (vec s)(getShifts sh := std_sort (caseSensitive sc) (vec s (getShifts sh)))\<rparr>)"
    by (simp add: AlphabetizerFilter_process_def SortedShiftRepo_copy_def getSortedShifts_def)
  have c: "sort_contract (caseSensitive sc) (vec s (getShifts sh))
      (std_sort (caseSensitive sc) (vec s (getShifts sh)))"
    by (rule std_sort_contract)
  have "(std_sort (caseSensitive sc) xs = xs) = sorted_wrt (\<lambda>x y. \<not> caseSensitive sc y x) xs" for xs
    using std_sort_contract [of sc xs] std_sort_sorted_id [of sc xs]
    by (auto simp: sort_contract_def)
  then show ?thesis
    using c by (simp add: p getSortedShifts_def)
qed

text \<open>
  C5 as stated has the ordering stage leave the stored output of the rotation stage as
  it was. For the line \<open>The quick fox\<close> and the noise word \<open>the\<close> the rotation stage
  stores \<open>quick fox The\<close> before \<open>fox The quick\<close>; after the ordering stage the
  rotation repository holds them in the other order.
\<close>

theorem AlphabetizerFilter_mutates_input_counterexample:
  "CircularShiftFilter_process True fox_lines fox_shifts fox_state
     = Some (add_shifts fox_shifts [''quick fox The '', ''fox The quick ''] fox_state)
   \<and> vec (add_shifts fox_shifts [''quick fox The '', ''fox The quick ''] fox_state) (getShifts fox_shifts)
     = [''quick fox The '', ''fox The quick '']
   \<and> vec (snd (AlphabetizerFilter_process True fox_shifts fox_sorted
          (add_shifts fox_shifts [''quick fox The '', ''fox The quick ''] fox_state))) (getShifts fox_shifts)
     = [''fox The quick '', ''quick fox The '']"
proof -
  have h2: "noiseWords fox_lines \<noteq> shifts fox_shifts"
    by (simp add: fox_lines_def fox_shifts_def)
  have e: "concat (map (rotations True (vec fox_state (noiseWords fox_lines))) (vec2d fox_state (lines2d fox_lines)))
      = [''quick fox The '', ''fox The quick '']"
    by (simp add: fox_state_def fox_lines_def init_state_def) code_simp
  have s: "std_sort (caseSensitive True) [''quick fox The '', ''fox The quick '']
      = [''fox The quick '', ''quick fox The '']"
    by code_simp
  have c: "CircularShiftFilter_process True fox_lines fox_shifts fox_state
      = Some (add_shifts fox_shifts [''quick fox The '', ''fox The quick ''] fox_state)"
    by (simp only: CircularShiftFilter_process_closed [OF h2] e)
  have v: "vec (add_shifts fox_shifts strs fox_state) (getShifts fox_shifts) = strs" for strs
    by (simp add: add_shifts_def getShifts_def fox_state_def init_state_def fox_shifts_def)
  have a: "vec (snd (AlphabetizerFilter_process True fox_shifts fox_sorted s1)) (getShifts fox_shifts)
      = std_sort (caseSensitive True) (vec s1 (getShifts fox_shifts))" for s1
    by (simp add: AlphabetizerFilter_process_def SortedShiftRepo_copy_def getSortedShifts_def)
  show ?thesis
    by (simp only: c v a s simp_thms)
qed

subsection \<open>C8: a wrong number of arguments\<close>

text \<open>
  C8. When the program is not given exactly two arguments after its name
  (\<open>argc \<noteq> 3\<close>), \<open>main\<close> writes a usage message to the error stream and returns 1;
  nothing is written to the output stream, no file is looked at and the store is as it
  was at the start.
\<close>

theorem usage_error:
  assumes "argc \<noteq> 3"
  shows "main sc fs elapsed argc argv =
      Returned 1 (init_state\<lparr>cerr :=
        (if argc < 3 then ''Error: Not enough arguments in command line.''
         else ''Error: Too many arguments in command line.'') @ ''\<newline>'' @ usage @ ''\<newline>''\<rparr>)
    \<and> exit_status (main sc fs elapsed argc argv) = Some 1
    \<and> stderr_of (main sc fs elapsed argc argv) \<noteq> []
    \<and> stdout_of (main sc fs elapsed argc argv) = []"
  using assms
  by (simp add: main_def write_cerr_def endl_def init_state_def exit_status_def stderr_of_def
      stdout_of_def)

text \<open>The theorem at one argument and at three.\<close>

theorem usage_error_witness:
  "exit_status (main True fox_fs 42 2 [''kwic'', ''doc.txt'']) = Some 1
   \<and> stderr_of (main True fox_fs 42 2 [''kwic'', ''doc.txt'']) \<noteq> []
   \<and> stdout_of (main True fox_fs 42 2 [''kwic'', ''doc.txt'']) = []
   \<and> exit_status (main True fox_fs 42 4 [''kwic'', ''doc.txt'', ''noise.txt'', ''more'']) = Some 1
   \<and> stderr_of (main True fox_fs 42 4 [''kwic'', ''doc.txt'', ''noise.txt'', ''more'']) \<noteq> []
   \<and> stdout_of (main True fox_fs 42 4 [''kwic'', ''doc.txt'', ''noise.txt'', ''more'']) = []"
proof -
  have few: "(2::int) \<noteq> 3" and many: "(4::int) \<noteq> 3"
    by simp_all
  show ?thesis
    using usage_error [OF few, of True fox_fs 42 "[''kwic'', ''doc.txt'']"]
      usage_error [OF many, of True fox_fs 42 "[''kwic'', ''doc.txt'', ''noise.txt'', ''more'']"]
    by blast
qed

subsection \<open>C9: a file that cannot be opened\<close>

text \<open>
  C9 (as amended). When the program is given two arguments and the noise-word file or
  the input document cannot be opened, it writes the failure to the error stream and
  exits with status 1, and nothing has been written to the output stream.
\<close>

theorem open_failure:
  assumes "argc = 3" and "fs (argv ! 2) = None \<or> fs (argv ! 1) = None"
  shows "exit_status (main sc fs elapsed argc argv) = Some 1
    \<and> stderr_of (main sc fs elapsed argc argv) =
        (if fs (argv ! 2) = None then ''Error opening noise words file'' else ''Error opening input file'')
          @ ''\<newline>''
    \<and> stdout_of (main sc fs elapsed argc argv) = []
    \<and> (\<exists>s. main sc fs elapsed argc argv = Exited 1 s)"
proof -
  obtain ln s1 where l: "LineRepo_new init_state = (ln, s1)"
    by (cases "LineRepo_new init_state")
  obtain sh s2 where h: "ShiftRepo_new s1 = (sh, s2)"
    by (cases "ShiftRepo_new s1")
  obtain ss s3 where o: "SortedShiftRepo_new s2 = (ss, s3)"
    by (cases "SortedShiftRepo_new s2")
  have s3: "cout s3 = [] \<and> cerr s3 = []"
    using constructors_streams [of init_state] constructors_streams [of s1]
      constructors_streams [of s2] l h o
    by (simp add: init_state_def)
  have m: "main sc fs elapsed argc argv =
      (case Pipeline_process sc fs (argv ! 1) (argv ! 2) ln sh ss s3 of
         Exited code s4 \<Rightarrow> Exited code s4
       | Undefined \<Rightarrow> Undefined
       | Returned ss' s4 \<Rightarrow>
           Returned 0 (write_cout ([CHR 0x0A, CHR 0x0A] @ show_int elapsed
                         @ '' microseconds to complete.'' @ endl) s4))"
    using assms(1) by (simp add: main_def l h o)
  show ?thesis
  proof (cases "fs (argv ! 2)")
    case None
    then have "Pipeline_process sc fs (argv ! 1) (argv ! 2) ln sh ss s3
        = Exited 1 (write_cerr (''Error opening noise words file'' @ endl) s3)"
      by (simp add: Pipeline_process_def InputFilter_process_def)
    then show ?thesis
      using None s3
      by (simp add: m exit_status_def stderr_of_def stdout_of_def write_cerr_def endl_def)
  next
    case (Some nwf)
    then have i: "fs (argv ! 1) = None"
      using assms(2) by simp
    then have "Pipeline_process sc fs (argv ! 1) (argv ! 2) ln sh ss s3
        = Exited 1 (write_cerr (''Error opening input file'' @ endl)
            (noise_lines_loop sc ln (stream_bytes nwf) s3))"
      using Some by (simp add: Pipeline_process_def InputFilter_process_def)
    then show ?thesis
      using Some s3
      by (simp add: m exit_status_def stderr_of_def stdout_of_def write_cerr_def endl_def
          noise_lines_loop_streams)
  qed
qed

text \<open>The theorem at a noise-word file, and at an input document, that does not
  exist.\<close>

theorem open_failure_witness:
  "exit_status (main True fox_fs 42 3 [''kwic'', ''doc.txt'', ''nowhere'']) = Some 1
   \<and> stderr_of (main True fox_fs 42 3 [''kwic'', ''doc.txt'', ''nowhere''])
       = ''Error opening noise words file\<newline>''
   \<and> stdout_of (main True fox_fs 42 3 [''kwic'', ''doc.txt'', ''nowhere'']) = []
   \<and> exit_status (main True fox_fs 42 3 [''kwic'', ''nowhere'', ''noise.txt'']) = Some 1
   \<and> stderr_of (main True fox_fs 42 3 [''kwic'', ''nowhere'', ''noise.txt''])
       = ''Error opening input file\<newline>''
   \<and> stdout_of (main True fox_fs 42 3 [''kwic'', ''nowhere'', ''noise.txt'']) = []"
proof -
  have a: "(3::int) = 3"
    by simp
  have n: "fox_fs ([''kwic'', ''doc.txt'', ''nowhere''] ! 2) = None
      \<or> fox_fs ([''kwic'', ''doc.txt'', ''nowhere''] ! 1) = None"
    and i: "fox_fs ([''kwic'', ''nowhere'', ''noise.txt''] ! 2) = None
      \<or> fox_fs ([''kwic'', ''nowhere'', ''noise.txt''] ! 1) = None"
    and f: "fox_fs ''nowhere'' = None" "fox_fs ''noise.txt'' \<noteq> None"
    by (simp_all add: fox_fs_def)
  show ?thesis
    using open_failure [OF a n, of True 42] open_failure [OF a i, of True 42] f
    by simp
qed

text \<open>
  C9 as stated covers a file that cannot be read as well. A path that opens and then
  fails every read, such as a directory, ends the \<open>getline\<close> loop as the end of the file
  does: the program reports nothing, prints its closing line to the output stream and
  returns 0.
\<close>

theorem unreadable_input_counterexample:
  "fox_fs ''/tmp'' = Some Unreadable
   \<and> exit_status (main True fox_fs 42 3 [''kwic'', ''/tmp'', ''noise.txt'']) = Some 0
   \<and> stderr_of (main True fox_fs 42 3 [''kwic'', ''/tmp'', ''noise.txt'']) = []
   \<and> stdout_of (main True fox_fs 42 3 [''kwic'', ''/tmp'', ''noise.txt''])
       = ''\<newline>\<newline>42 microseconds to complete.\<newline>''"
  by code_simp

end
